theory Spec2Isabelle
  imports Main "HOL-Library.Word" "HOL-Library.Sublist"
begin

section \<open>Event queue (hsm.h, hsm.c)\<close>

text \<open>
  \<^verbatim>\<open>typedef uint16_t event_t;\<close> The reserved events are the first members of
  \<^verbatim>\<open>enum hsm_sys_event_enum\<close>.
\<close>

type_synonym event_t = "16 word"

definition HSM_INITIAL :: event_t where "HSM_INITIAL = 0"
definition HSM_ON_ENTRY :: event_t where "HSM_ON_ENTRY = 1"
definition HSM_ON_EXIT :: event_t where "HSM_ON_EXIT = 2"
definition HSM_USER_START :: event_t where "HSM_USER_START = 3"

datatype eventQueueError_t = QUEUE_OK | QUEUE_FULL | QUEUE_EMPTY

text \<open>
  \<^verbatim>\<open>eventQueue_t\<close>. The field \<^verbatim>\<open>queue\<close> is a pointer to a caller-supplied buffer
  whose size the structure does not know: it is modelled as the memory behind the pointer,
  indexed by offset. \<^verbatim>\<open>length\<close>, \<^verbatim>\<open>head\<close> and \<^verbatim>\<open>tail\<close> are \<^verbatim>\<open>uint8_t\<close>.
  The fields \<^verbatim>\<open>length\<close> and \<^verbatim>\<open>empty\<close> carry a suffix because the plain names
  are taken by list and set constants.
\<close>

record eventQueue_t =
  queue :: "nat \<Rightarrow> event_t"
  length_q :: "8 word"
  head :: "8 word"
  tail :: "8 word"
  full :: bool
  empty_q :: bool

definition initEventQueue ::
  "eventQueue_t \<Rightarrow> (nat \<Rightarrow> event_t) \<Rightarrow> 8 word \<Rightarrow> eventQueue_t" where
  "initEventQueue eventQueue buf len =
     eventQueue\<lparr>queue := buf, length_q := len, head := 0, tail := 0,
                full := False, empty_q := True\<rparr>"

text \<open>
  \<^verbatim>\<open>getEvent\<close> writes the popped event through its pointer argument and leaves the
  pointee alone when the queue is empty: the model takes the old pointee and returns the
  new one. In \<^verbatim>\<open>tail < length - 1\<close> both operands are promoted to \<^verbatim>\<open>int\<close>, so the
  comparison is made on \<open>uint\<close> and \<open>length - 1\<close> is \<open>-1\<close> for length 0.
\<close>

definition getEvent ::
  "eventQueue_t \<Rightarrow> event_t \<Rightarrow> eventQueueError_t \<times> event_t \<times> eventQueue_t" where
  "getEvent eventQueue event =
     (if \<not> empty_q eventQueue then
        (let event' = queue eventQueue (unat (tail eventQueue));
             q1 = eventQueue\<lparr>full := False\<rparr>;
             q2 = q1\<lparr>tail := (if uint (tail q1) < uint (length_q q1) - 1
                               then tail q1 + 1 else 0)\<rparr>;
             q3 = q2\<lparr>empty_q := (if tail q2 = head q2 then True else False)\<rparr>
         in (QUEUE_OK, event', q3))
      else (QUEUE_EMPTY, event, eventQueue))"

definition putEvent :: "eventQueue_t \<Rightarrow> event_t \<Rightarrow> eventQueueError_t \<times> eventQueue_t" where
  "putEvent eventQueue event =
     (if \<not> full eventQueue then
        (let q1 = eventQueue\<lparr>queue := (queue eventQueue)(unat (head eventQueue) := event)\<rparr>;
             q2 = q1\<lparr>empty_q := False\<rparr>;
             q3 = q2\<lparr>head := (if uint (head q2) < uint (length_q q2) - 1
                               then head q2 + 1 else 0)\<rparr>;
             q4 = q3\<lparr>full := (if tail q3 = head q3 then True else False)\<rparr>
         in (QUEUE_OK, q4))
      else (QUEUE_FULL, eventQueue))"

section \<open>The machine\<close>

text \<open>
  States are \<^verbatim>\<open>const state_t\<close> objects referred to by pointer; \<open>'s\<close> is the type of
  these pointers and a table \<open>'s \<Rightarrow> 's state_t\<close> gives the object behind each one.
  The system state \<open>'s sys\<close> holds what the engine reads and writes: the two fields of
  \<^verbatim>\<open>hsm_t\<close> (with the queue behind the \<^verbatim>\<open>eventQueue\<close> pointer), the two global
  scratch arrays \<^verbatim>\<open>up_path[16]\<close> and \<^verbatim>\<open>down_path[16]\<close>, the interrupt mask that
  \<^verbatim>\<open>__disable_irq\<close> and \<^verbatim>\<open>__enable_irq\<close> switch, and a log of the handler
  invocations the engine has made: the state whose handler was called, the event passed,
  and the value of \<^verbatim>\<open>hsm->currentState\<close> at the moment of the call. A handler is user code: it receives the event and may
  change the system state (for instance by calling \<^verbatim>\<open>setState\<close> or \<^verbatim>\<open>sendEvent\<close>).
\<close>

record 's sys =
  currentState :: 's
  eventQueue :: eventQueue_t
  up_path :: "nat \<Rightarrow> 's"
  down_path :: "nat \<Rightarrow> 's"
  irq_enabled :: bool
  trace :: "('s \<times> event_t \<times> 's) list"

record 's state_t =
  handler :: "event_t \<Rightarrow> 's sys \<Rightarrow> 's sys"
  parent :: 's
  history :: 's

text \<open>An access beyond the 16 entries of a path array is undefined behaviour in C.\<close>

datatype hsm_error = PathOutOfBounds

text \<open>\<^verbatim>\<open>s->handler(ev)\<close>: the invocation is logged, then the handler body runs.\<close>

definition call_handler :: "('s \<Rightarrow> 's state_t) \<Rightarrow> 's \<Rightarrow> event_t \<Rightarrow> 's sys \<Rightarrow> 's sys" where
  "call_handler st s ev w =
     handler (st s) ev (w\<lparr>trace := trace w @ [(s, ev, currentState w)]\<rparr>)"

text \<open>\<^verbatim>\<open>sendEvent\<close> returns \<^verbatim>\<open>void\<close>: the status of \<^verbatim>\<open>putEvent\<close> is dropped.\<close>

definition sendEvent :: "'s sys \<Rightarrow> event_t \<Rightarrow> 's sys" where
  "sendEvent w event =
     (let w1 = w\<lparr>irq_enabled := False\<rparr>;
          w2 = w1\<lparr>eventQueue := snd (putEvent (eventQueue w1) event)\<rparr>
      in w2\<lparr>irq_enabled := True\<rparr>)"


text \<open>
  The two loops of \<^verbatim>\<open>setState\<close> that climb to the root (one on \<^verbatim>\<open>up_path\<close>, one on
  \<^verbatim>\<open>down_path\<close>) are the same code: \<open>walk_path\<close> is that loop on an array \<open>path\<close>
  with counter \<open>c\<close>. Incrementing the counter to 16 would write behind the array.
\<close>

function walk_path ::
  "('s \<Rightarrow> 's) \<Rightarrow> 8 word \<Rightarrow> (nat \<Rightarrow> 's) \<Rightarrow> hsm_error + (8 word \<times> (nat \<Rightarrow> 's))" where
  "walk_path par c path =
     (if 16 \<le> unat c then Inl PathOutOfBounds
      else if path (unat c) \<noteq> par (path (unat c)) then
        (if 16 \<le> unat (c + 1) then Inl PathOutOfBounds
         else walk_path par (c + 1) (path(unat (c + 1) := par (path (unat (c + 1) - 1)))))
      else Inr (c, path))"
  by pat_completeness auto
termination
proof (relation "measure (\<lambda>(par, c, path). 16 - unat c)")
  show "wf (measure (\<lambda>(par, c, path). 16 - unat (c :: 8 word)))" by simp
next
  fix par :: "'s \<Rightarrow> 's" and c :: "8 word" and path :: "nat \<Rightarrow> 's"
  assume "\<not> 16 \<le> unat c" "\<not> 16 \<le> unat (c + 1)"
  then have "unat c + 1 < 2 ^ LENGTH(8)" by simp
  then have "unat (c + 1) = unat c + 1" by (metis unat_1 unat_add_lem)
  with \<open>\<not> 16 \<le> unat c\<close>
  show "((par, c + 1, path(unat (c + 1) := par (path (unat (c + 1) - 1)))), (par, c, path))
        \<in> measure (\<lambda>(par, c, path). 16 - unat c)"
    by simp
qed

text \<open>
  The loop that prunes the common ancestors; the result is the two counters and the
  flags \<^verbatim>\<open>no_exit\<close> and \<^verbatim>\<open>no_entry\<close>.
\<close>

function prune ::
  "(nat \<Rightarrow> 's) \<Rightarrow> (nat \<Rightarrow> 's) \<Rightarrow> 8 word \<Rightarrow> 8 word \<Rightarrow> 8 word \<times> 8 word \<times> bool \<times> bool" where
  "prune up down c d =
     (if up (unat c) = down (unat d) then
        (if c = 0 then (c, d - 1, True, False)
         else if d = 0 then (c - 1, d, False, True)
         else prune up down (c - 1) (d - 1))
      else (c, d, False, False))"
  by pat_completeness auto
termination
proof (relation "measure (\<lambda>(up, down, c, d). unat c)")
  show "wf (measure (\<lambda>(up, down, c, d). unat (c :: 8 word)))" by simp
next
  fix up down :: "nat \<Rightarrow> 's" and c d :: "8 word"
  assume "c \<noteq> 0"
  then have "unat (c - 1) < unat c"
    by (simp add: unat_minus_one unat_gt_0)
  then show "((up, down, c - 1, d - 1), (up, down, c, d)) \<in> measure (\<lambda>(up, down, c, d). unat c)"
    by simp
qed

text \<open>
  The exit loop \<^verbatim>\<open>while( i <= curr_path_cntr ){ up_path[i]->handler( HSM_ON_EXIT ); i--; }\<close>
  with \<^verbatim>\<open>uint8_t i\<close>: the decrement wraps from 0 to 255.
\<close>

function exit_loop ::
  "('s \<Rightarrow> 's state_t) \<Rightarrow> 8 word \<Rightarrow> 8 word \<Rightarrow> 's sys \<Rightarrow> hsm_error + 's sys" where
  "exit_loop st c i w =
     (if i \<le> c then
        (if 16 \<le> unat i then Inl PathOutOfBounds
         else exit_loop st c (i - 1) (call_handler st (up_path w (unat i)) HSM_ON_EXIT w))
      else Inr w)"
  by pat_completeness auto
termination
proof (relation "measure (\<lambda>(st, c, i, w). if unat i < 16 then unat i + 2 else 0)")
  show "wf (measure (\<lambda>(st, c, i, w). if unat (i :: 8 word) < 16 then unat i + 2 else 0))"
    by simp
next
  fix st :: "'s \<Rightarrow> 's state_t" and c i :: "8 word" and w :: "'s sys"
  assume "\<not> 16 \<le> unat i"
  have "unat (i - 1) < unat i" if "i \<noteq> 0"
    using that by (simp add: unat_minus_one unat_gt_0)
  moreover have "unat (i - 1) = 255" if "i = 0"
    using that by (simp add: unsigned_minus_1_eq_mask mask_eq_exp_minus_1)
  ultimately
  show "((st, c, i - 1, call_handler st (up_path w (unat i)) HSM_ON_EXIT w), (st, c, i, w))
        \<in> measure (\<lambda>(st, c, i, w). if unat i < 16 then unat i + 2 else 0)"
    using \<open>\<not> 16 \<le> unat i\<close> by (cases "i = 0") auto
qed

text \<open>
  The entry loop \<^verbatim>\<open>do{ i--; down_path[i]->handler( HSM_ON_ENTRY ); } while( i != 0 );\<close>
  entered with \<open>i = dest_path_cntr + 1\<close>.
\<close>

function entry_loop ::
  "('s \<Rightarrow> 's state_t) \<Rightarrow> 8 word \<Rightarrow> 's sys \<Rightarrow> hsm_error + 's sys" where
  "entry_loop st i w =
     (if 16 \<le> unat (i - 1) then Inl PathOutOfBounds
      else if i - 1 \<noteq> 0
        then entry_loop st (i - 1) (call_handler st (down_path w (unat (i - 1))) HSM_ON_ENTRY w)
        else Inr (call_handler st (down_path w (unat (i - 1))) HSM_ON_ENTRY w))"
  by pat_completeness auto
termination
proof (relation "measure (\<lambda>(st, i, w). unat (i - 1))")
  show "wf (measure (\<lambda>(st, i, w). unat ((i :: 8 word) - 1)))" by simp
next
  fix st :: "'s \<Rightarrow> 's state_t" and i :: "8 word" and w :: "'s sys"
  assume nz: "i - 1 \<noteq> 0"
  have "unat (x - 1) < unat x" if "x \<noteq> 0" for x :: "8 word"
    using that by (simp add: unat_minus_one unat_gt_0)
  from this [OF nz] show "((st, i - 1, call_handler st (down_path w (unat (i - 1))) HSM_ON_ENTRY w), (st, i, w))
        \<in> measure (\<lambda>(st, i, w). unat (i - 1))"
    by simp
qed

definition setState :: "('s \<Rightarrow> 's state_t) \<Rightarrow> 's sys \<Rightarrow> 's \<Rightarrow> hsm_error + 's sys" where
  "setState st w state =
     (if currentState w = state then
        (let w1 = call_handler st state HSM_ON_EXIT w;
             w2 = call_handler st state HSM_ON_ENTRY w1
         in Inr (sendEvent w2 HSM_INITIAL))
      else
        (case walk_path (\<lambda>s. parent (st s)) 0 ((up_path w)(0 := currentState w)) of
           Inl err \<Rightarrow> Inl err
         | Inr (curr_path_cntr, up) \<Rightarrow>
        (case walk_path (\<lambda>s. parent (st s)) 0 ((down_path w)(0 := state)) of
           Inl err \<Rightarrow> Inl err
         | Inr (dest_path_cntr, down) \<Rightarrow>
        (case prune up down curr_path_cntr dest_path_cntr of
           (curr_path_cntr', dest_path_cntr', no_exit, no_entry) \<Rightarrow>
        (case (if no_exit = False
               then exit_loop st curr_path_cntr' 0 (w\<lparr>up_path := up, down_path := down\<rparr>)
               else Inr (w\<lparr>up_path := up, down_path := down\<rparr>)) of
           Inl err \<Rightarrow> Inl err
         | Inr w3 \<Rightarrow>
        (case (if no_entry = False then entry_loop st (dest_path_cntr' + 1) w3 else Inr w3) of
           Inl err \<Rightarrow> Inl err
         | Inr w4 \<Rightarrow> Inr (sendEvent (w4\<lparr>currentState := state\<rparr>) HSM_INITIAL)))))))"

text \<open>
  \<^verbatim>\<open>processHSM\<close>: the loop runs for as long as handlers keep the queue non-empty, so
  it is a partial function and not returning is the value \<open>None\<close>. \<open>currentEvent\<close> is
  the local variable, uninitialised on entry and written by \<^verbatim>\<open>getEvent\<close>.
\<close>

partial_function (option) processHSM ::
  "('s \<Rightarrow> 's state_t) \<Rightarrow> event_t \<Rightarrow> 's sys \<Rightarrow> 's sys option" where
  "processHSM st currentEvent w =
     (case getEvent (eventQueue w) currentEvent of
        (r, currentEvent', q') \<Rightarrow>
          if r \<noteq> QUEUE_EMPTY
          then processHSM st currentEvent'
                 (call_handler st (currentState (w\<lparr>eventQueue := q'\<rparr>)) currentEvent'
                    (w\<lparr>eventQueue := q'\<rparr>))
          else Some (w\<lparr>eventQueue := q'\<rparr>))"

section \<open>Notions used to state the properties\<close>

subsection \<open>Queue contents\<close>

definition capacity :: "eventQueue_t \<Rightarrow> nat" where
  "capacity q = unat (length_q q)"

text \<open>The invariant of a queue in use: indices inside the buffer, flags consistent.\<close>

definition queue_inv :: "eventQueue_t \<Rightarrow> bool" where
  "queue_inv q \<longleftrightarrow>
     unat (head q) < capacity q \<and> unat (tail q) < capacity q \<and>
     \<not> (full q \<and> empty_q q) \<and> (head q = tail q \<longleftrightarrow> full q \<or> empty_q q)"

definition count :: "eventQueue_t \<Rightarrow> nat" where
  "count q = (if full q then capacity q
              else (unat (head q) + capacity q - unat (tail q)) mod capacity q)"

text \<open>The events waiting in the queue, oldest first.\<close>

definition contents :: "eventQueue_t \<Rightarrow> event_t list" where
  "contents q = map (\<lambda>i. queue q ((unat (tail q) + i) mod capacity q)) [0..<count q]"

text \<open>
  A client of the queue: a sequence of pushes and pops, and what each call returns
  (for a pop, the event written through the pointer when the status is \<open>QUEUE_OK\<close>).
\<close>

datatype op = Push event_t | Pop
datatype obs = Pushed eventQueueError_t | Popped eventQueueError_t "event_t option"

fun run_ops :: "eventQueue_t \<Rightarrow> op list \<Rightarrow> obs list \<times> eventQueue_t" where
  "run_ops q [] = ([], q)"
| "run_ops q (Push e # ops) =
     (case putEvent q e of (r, q') \<Rightarrow>
        (case run_ops q' ops of (os, q'') \<Rightarrow> (Pushed r # os, q'')))"
| "run_ops q (Pop # ops) =
     (case getEvent q 0 of (r, ev, q') \<Rightarrow>
        (case run_ops q' ops of (os, q'') \<Rightarrow>
           (Popped r (if r = QUEUE_OK then Some ev else None) # os, q'')))"

text \<open>
  The specification's queue, in its words: a FIFO list bounded by the capacity; a push on
  a full queue returns \<open>Full\<close> and changes nothing, a pop on an empty one returns
  \<open>Empty\<close>.
\<close>

fun fifo_ops :: "nat \<Rightarrow> event_t list \<Rightarrow> op list \<Rightarrow> obs list \<times> event_t list" where
  "fifo_ops C xs [] = ([], xs)"
| "fifo_ops C xs (Push e # ops) =
     (if length xs = C
      then (case fifo_ops C xs ops of (os, ys) \<Rightarrow> (Pushed QUEUE_FULL # os, ys))
      else (case fifo_ops C (xs @ [e]) ops of (os, ys) \<Rightarrow> (Pushed QUEUE_OK # os, ys)))"
| "fifo_ops C xs (Pop # ops) =
     (case xs of
        [] \<Rightarrow> (case fifo_ops C [] ops of (os, ys) \<Rightarrow> (Popped QUEUE_EMPTY None # os, ys))
      | x # xs' \<Rightarrow>
          (case fifo_ops C xs' ops of (os, ys) \<Rightarrow> (Popped QUEUE_OK (Some x) # os, ys)))"

text \<open>The events of the pushes that returned \<open>QUEUE_OK\<close>, and the events popped.\<close>

fun accepted :: "op list \<Rightarrow> obs list \<Rightarrow> event_t list" where
  "accepted (Push e # ops) (Pushed QUEUE_OK # os) = e # accepted ops os"
| "accepted (_ # ops) (_ # os) = accepted ops os"
| "accepted _ _ = []"

fun popped :: "obs list \<Rightarrow> event_t list" where
  "popped [] = []"
| "popped (Popped QUEUE_OK (Some e) # os) = e # popped os"
| "popped (_ # os) = popped os"

text \<open>The two flags are never both set, and they are what tells a full queue from an
  empty one when the indices coincide.\<close>

definition flags_inv :: "eventQueue_t \<Rightarrow> bool" where
  "flags_inv q \<longleftrightarrow> \<not> (full q \<and> empty_q q) \<and> (head q = tail q \<longleftrightarrow> full q \<or> empty_q q)"

subsection \<open>Handlers\<close>

text \<open>
  Entry and exit actions that do not touch the system state (they act on the
  application only): the assumption under which the transition algorithm is analysed.
\<close>

definition quiet_actions :: "('s \<Rightarrow> 's state_t) \<Rightarrow> bool" where
  "quiet_actions st \<longleftrightarrow>
     (\<forall>s w. handler (st s) HSM_ON_EXIT w = w \<and> handler (st s) HSM_ON_ENTRY w = w)"

text \<open>Handlers that never touch the system state, whatever the event.\<close>

definition idle_handlers :: "('s \<Rightarrow> 's state_t) \<Rightarrow> bool" where
  "idle_handlers st \<longleftrightarrow> (\<forall>s ev w. handler (st s) ev w = w)"

subsection \<open>Hierarchy\<close>

text \<open>
  The ancestor chain of a state: the state, its parent, and so on up to the first node
  that is its own parent (a root), cut after \<open>n\<close> links.
\<close>

fun chain :: "('s \<Rightarrow> 's) \<Rightarrow> nat \<Rightarrow> 's \<Rightarrow> 's list" where
  "chain par 0 s = [s]"
| "chain par (Suc n) s = (if par s = s then [s] else s # chain par n (par s))"

definition ancestors :: "('s \<Rightarrow> 's state_t) \<Rightarrow> 's \<Rightarrow> 's list" where
  "ancestors st s = chain (\<lambda>x. parent (st x)) 15 s"

text \<open>The chain of \<open>s\<close> reaches a root within 16 levels.\<close>

definition within_depth :: "('s \<Rightarrow> 's state_t) \<Rightarrow> 's \<Rightarrow> bool" where
  "within_depth st s \<longleftrightarrow> parent (st (last (ancestors st s))) = last (ancestors st s)"

text \<open>
  What the specification asks of a transition from \<open>S\<close> to \<open>T\<close>. The least common
  ancestor is the first node of one chain that lies on the other; the nodes to exit are
  those of the chain of \<open>S\<close> below it, innermost first, and the nodes to enter are those
  of the chain of \<open>T\<close> below it, outermost first.
\<close>

definition exit_chain :: "('s \<Rightarrow> 's state_t) \<Rightarrow> 's \<Rightarrow> 's \<Rightarrow> 's list" where
  "exit_chain st S T = takeWhile (\<lambda>x. x \<notin> set (ancestors st T)) (ancestors st S)"

definition entry_chain :: "('s \<Rightarrow> 's state_t) \<Rightarrow> 's \<Rightarrow> 's \<Rightarrow> 's list" where
  "entry_chain st S T = rev (takeWhile (\<lambda>x. x \<notin> set (ancestors st S)) (ancestors st T))"

text \<open>A list that climbs along \<open>par\<close> from node to parent and stops at the first root.\<close>

definition climbs :: "('s \<Rightarrow> 's) \<Rightarrow> 's list \<Rightarrow> bool" where
  "climbs par xs \<longleftrightarrow>
     xs \<noteq> [] \<and> par (last xs) = last xs \<and>
     (\<forall>i. Suc i < length xs \<longrightarrow> xs ! Suc i = par (xs ! i) \<and> par (xs ! i) \<noteq> xs ! i)"

subsection \<open>Firing a sequence of actions\<close>

text \<open>
  To fire the actions \<open>(s, ev)\<close> of a list in order is to invoke, for each, the handler of
  \<open>s\<close> with \<open>ev\<close>: the invocation is entered in the log and the handler body runs on
  the state its predecessors left.
\<close>

fun fire :: "('s \<Rightarrow> 's state_t) \<Rightarrow> ('s \<times> event_t) list \<Rightarrow> 's sys \<Rightarrow> 's sys" where
  "fire st [] w = w"
| "fire st ((s, ev) # as) w =
     fire st as (handler (st s) ev (w\<lparr>trace := trace w @ [(s, ev, currentState w)]\<rparr>))"

text \<open>
  What a log shows: the invocations made (state and event), and the states on which a
  given event was fired, in order.
\<close>

definition calls :: "('s \<times> event_t \<times> 's) list \<Rightarrow> ('s \<times> event_t) list" where
  "calls tr = map (\<lambda>x. (fst x, fst (snd x))) tr"

definition fired :: "event_t \<Rightarrow> ('s \<times> event_t \<times> 's) list \<Rightarrow> 's list" where
  "fired ev tr = map fst (filter (\<lambda>x. fst (snd x) = ev) tr)"

text \<open>
  An entry or exit action that calls back into the engine overwrites the scratch path
  \<^verbatim>\<open>down_path\<close> (a nested general transition) or makes the engine invoke handlers (any
  nested \<^verbatim>\<open>setState\<close>). Actions that leave \<^verbatim>\<open>down_path\<close>, respectively the log, as
  they found them do neither; they may still post events or write other fields.
  Actions that leave the queue as they found it post no events.
\<close>

definition down_path_kept :: "('s \<Rightarrow> 's state_t) \<Rightarrow> bool" where
  "down_path_kept st \<longleftrightarrow>
     (\<forall>s w. down_path (handler (st s) HSM_ON_EXIT w) = down_path w \<and>
            down_path (handler (st s) HSM_ON_ENTRY w) = down_path w)"

definition log_kept :: "('s \<Rightarrow> 's state_t) \<Rightarrow> bool" where
  "log_kept st \<longleftrightarrow>
     (\<forall>s w. trace (handler (st s) HSM_ON_EXIT w) = trace w \<and>
            trace (handler (st s) HSM_ON_ENTRY w) = trace w)"

definition queue_kept :: "('s \<Rightarrow> 's state_t) \<Rightarrow> bool" where
  "queue_kept st \<longleftrightarrow>
     (\<forall>s w. eventQueue (handler (st s) HSM_ON_EXIT w) = eventQueue w \<and>
            eventQueue (handler (st s) HSM_ON_ENTRY w) = eventQueue w)"

subsection \<open>A small hierarchy\<close>

text \<open>
  The hierarchy of the specification's examples, with one more child of the root:
  \<open>Root = 0\<close>, \<open>A = 1\<close> and \<open>B = 4\<close> below \<open>Root\<close>, \<open>A1 = 2\<close> and \<open>A2 = 3\<close>
  below \<open>A\<close>. Every other number is a root of its own. All handlers do nothing.
\<close>

definition demo_parent :: "nat \<Rightarrow> nat" where
  "demo_parent s = (if s = 1 \<or> s = 4 then 0 else if s = 2 \<or> s = 3 then 1 else s)"

definition demo_states :: "nat \<Rightarrow> nat state_t" where
  "demo_states s = \<lparr>handler = (\<lambda>ev w. w), parent = demo_parent s, history = s\<rparr>"

text \<open>A machine in state \<open>s\<close> with an empty queue of capacity 4.\<close>

definition demo_sys :: "nat \<Rightarrow> nat sys" where
  "demo_sys s =
     \<lparr>currentState = s,
      eventQueue = \<lparr>queue = (\<lambda>_. 0), length_q = 4, head = 0, tail = 0,
                    full = False, empty_q = True\<rparr>,
      up_path = (\<lambda>_. 0), down_path = (\<lambda>_. 0), irq_enabled = True, trace = []\<rparr>"

text \<open>
  The same hierarchy where the handler of \<open>A1\<close>, on the first user event, requests the
  transition to \<open>A2\<close>, as the body \<^verbatim>\<open>if (event == HSM_USER_START) setState(&hsm, &A2);\<close>
  does.
\<close>

definition relay_states :: "nat \<Rightarrow> nat state_t" where
  "relay_states s =
     \<lparr>handler = (\<lambda>ev w. if s = 2 \<and> ev = HSM_USER_START
                          then (case setState demo_states w 3 of Inr w' \<Rightarrow> w' | Inl _ \<Rightarrow> w)
                          else w),
      parent = demo_parent s, history = s\<rparr>"

text \<open>
  The same hierarchy where the exit action of \<open>A1\<close> requests the transition to \<open>B\<close>, as
  the body \<^verbatim>\<open>if (event == HSM_ON_EXIT) setState(&hsm, &B);\<close> does, once (the nested
  call runs with the actions switched off, as a guard in the handler would have it).
\<close>

definition reentrant_states :: "nat \<Rightarrow> nat state_t" where
  "reentrant_states s =
     \<lparr>handler = (\<lambda>ev w. if s = 2 \<and> ev = HSM_ON_EXIT
                          then (case setState demo_states w 4 of Inr w' \<Rightarrow> w' | Inl _ \<Rightarrow> w)
                          else w),
      parent = demo_parent s, history = s\<rparr>"

text \<open>
  The same hierarchy where every exit and entry action posts an event that names it,
  \<open>10 * s + ev\<close>, as the body \<^verbatim>\<open>sendEvent(&hsm, 10 * s + event);\<close> does.
\<close>

definition posting_states :: "nat \<Rightarrow> nat state_t" where
  "posting_states s =
     \<lparr>handler = (\<lambda>ev w. if ev = HSM_ON_ENTRY \<or> ev = HSM_ON_EXIT
                          then sendEvent w (of_nat (10 * s) + ev) else w),
      parent = demo_parent s, history = s\<rparr>"

text \<open>A chain of 17 states, \<open>0\<close> at the bottom and the root \<open>16\<close> at the top.\<close>

definition deep_states :: "nat \<Rightarrow> nat state_t" where
  "deep_states s = \<lparr>handler = (\<lambda>ev w. w), parent = (if s < 16 then Suc s else s), history = s\<rparr>"

declare walk_path.simps [simp del] prune.simps [simp del] exit_loop.simps [simp del]
  entry_loop.simps [simp del]

declare processHSM.simps [code]

section \<open>Properties of the event queue\<close>

lemma advance_unat:
  fixes i len :: "8 word"
  assumes "unat i < unat len"
  shows "unat (if uint i < uint len - 1 then i + 1 else 0) = (unat i + 1) mod unat len"
proof (cases "uint i < uint len - 1")
  case True
  then have "int (unat i) < int (unat len) - 1"
    unfolding uint_nat .
  then have lt: "unat i + 1 < unat len" by linarith
  have "unat len < 2 ^ LENGTH(8)" by (rule unsigned_less)
  with lt have "unat i + 1 < 2 ^ LENGTH(8)" by linarith
  then have "unat (i + 1) = unat i + 1"
    by (metis unat_1 unat_add_lem)
  with True lt show ?thesis by simp
next
  case False
  then have "\<not> int (unat i) < int (unat len) - 1"
    unfolding uint_nat .
  with assms have "unat i + 1 = unat len" by linarith
  with False show ?thesis by simp
qed

lemma queue_inv_init: "1 \<le> unat len \<Longrightarrow> queue_inv (initEventQueue eq buf len)"
  by (simp add: queue_inv_def initEventQueue_def capacity_def)

lemma contents_init: "contents (initEventQueue eq buf len) = []"
  by (simp add: contents_def count_def initEventQueue_def capacity_def)

lemma ring_dist:
  fixes h t C :: nat
  assumes "h < C" "t < C"
  shows "(h + C - t) mod C = (if t \<le> h then h - t else h + C - t)"
proof (cases "t \<le> h")
  case True
  then have "h + C - t = (h - t) + C" by simp
  then have "(h + C - t) mod C = (h - t) mod C" by simp
  with True assms show ?thesis by simp
next
  case False
  with assms show ?thesis by simp
qed

lemma ring_succ:
  fixes h C :: nat
  assumes "h < C"
  shows "Suc h mod C = (if Suc h < C then Suc h else 0)"
  using assms by (auto simp: not_less le_Suc_eq)

lemma ring_index:
  fixes t i C :: nat
  assumes "t < C" "i < C"
  shows "(t + i) mod C = (if t + i < C then t + i else t + i - C)"
  using assms by (auto simp: not_less le_mod_geq)

lemma count_put_nat:
  fixes h t C :: nat
  assumes "h < C" "t < C"
  shows "(if Suc h mod C = t then C else (Suc h mod C + C - t) mod C) = Suc ((h + C - t) mod C)"
  using assms
  by (auto simp: ring_dist ring_succ split: if_splits)

lemma count_get_nat:
  fixes h t C :: nat
  assumes "h < C" "t < C"
  shows "Suc ((h + C - Suc t mod C) mod C) = (if h = t then C else (h + C - t) mod C)"
  using assms
  by (auto simp: ring_dist ring_succ split: if_splits)

lemma ring_last:
  fixes h t C :: nat
  assumes "h < C" "t < C"
  shows "(t + (h + C - t) mod C) mod C = h"
  using assms by (auto simp: ring_dist ring_index)

lemma ring_before:
  fixes h t C i :: nat
  assumes "h < C" "t < C" "i < (h + C - t) mod C"
  shows "(t + i) mod C \<noteq> h"
  using assms by (auto simp: ring_dist ring_index split: if_splits)

lemma unat_eq_iff8: "(a :: 8 word) = b \<longleftrightarrow> unat a = unat b"
  by (simp add: word_unat_eq_iff)

lemma putEvent_full: "full q \<Longrightarrow> putEvent q e = (QUEUE_FULL, q)"
  by (simp add: putEvent_def)

lemma getEvent_empty: "empty_q q \<Longrightarrow> getEvent q ev = (QUEUE_EMPTY, ev, q)"
  by (simp add: getEvent_def)

lemma putEvent_fields:
  assumes "\<not> full q"
  shows "fst (putEvent q e) = QUEUE_OK"
    and "queue (snd (putEvent q e)) = (queue q)(unat (head q) := e)"
    and "length_q (snd (putEvent q e)) = length_q q"
    and "head (snd (putEvent q e)) = (if uint (head q) < uint (length_q q) - 1 then head q + 1 else 0)"
    and "tail (snd (putEvent q e)) = tail q"
    and "empty_q (snd (putEvent q e)) = False"
    and "full (snd (putEvent q e)) = (tail q = (if uint (head q) < uint (length_q q) - 1 then head q + 1 else 0))"
  using assms by (simp_all add: putEvent_def Let_def)

lemma getEvent_fields:
  assumes "\<not> empty_q q"
  shows "fst (getEvent q ev) = QUEUE_OK"
    and "fst (snd (getEvent q ev)) = queue q (unat (tail q))"
    and "queue (snd (snd (getEvent q ev))) = queue q"
    and "length_q (snd (snd (getEvent q ev))) = length_q q"
    and "head (snd (snd (getEvent q ev))) = head q"
    and "tail (snd (snd (getEvent q ev))) = (if uint (tail q) < uint (length_q q) - 1 then tail q + 1 else 0)"
    and "full (snd (snd (getEvent q ev))) = False"
    and "empty_q (snd (snd (getEvent q ev))) = ((if uint (tail q) < uint (length_q q) - 1 then tail q + 1 else 0) = head q)"
  using assms by (simp_all add: getEvent_def Let_def)

lemma put_head_unat:
  assumes "queue_inv q" "\<not> full q"
  shows "unat (head (snd (putEvent q e))) = Suc (unat (head q)) mod capacity q"
  using assms advance_unat [of "head q" "length_q q"]
  by (simp add: putEvent_fields queue_inv_def capacity_def)

lemma get_tail_unat:
  assumes "queue_inv q" "\<not> empty_q q"
  shows "unat (tail (snd (snd (getEvent q ev)))) = Suc (unat (tail q)) mod capacity q"
  using assms advance_unat [of "tail q" "length_q q"]
  by (simp add: getEvent_fields queue_inv_def capacity_def)

lemma queue_inv_put:
  assumes "queue_inv q"
  shows "queue_inv (snd (putEvent q e))"
proof (cases "full q")
  case True
  with assms show ?thesis by (simp add: putEvent_full)
next
  case False
  let ?q' = "snd (putEvent q e)"
  have C: "0 < capacity q" and t: "unat (tail q) < capacity q"
    using assms by (auto simp: queue_inv_def)
  have h: "unat (head ?q') < capacity q"
    using C by (simp add: put_head_unat [OF assms False])
  have cap: "capacity ?q' = capacity q"
    using False by (simp add: capacity_def putEvent_fields)
  have tl: "tail ?q' = tail q" and em: "\<not> empty_q ?q'"
    using False by (simp_all add: putEvent_fields)
  have fl: "full ?q' \<longleftrightarrow> tail q = head ?q'"
    using False by (simp add: putEvent_fields)
  show ?thesis
    unfolding queue_inv_def cap tl using h t em fl by auto
qed

lemma queue_inv_get:
  assumes "queue_inv q"
  shows "queue_inv (snd (snd (getEvent q ev)))"
proof (cases "empty_q q")
  case True
  with assms show ?thesis by (simp add: getEvent_empty)
next
  case False
  let ?q' = "snd (snd (getEvent q ev))"
  have C: "0 < capacity q" and h: "unat (head q) < capacity q"
    using assms by (auto simp: queue_inv_def)
  have t: "unat (tail ?q') < capacity q"
    using C by (simp add: get_tail_unat [OF assms False])
  have cap: "capacity ?q' = capacity q"
    using False by (simp add: capacity_def getEvent_fields)
  have hd: "head ?q' = head q" and nf: "\<not> full ?q'"
    using False by (simp_all add: getEvent_fields)
  have em: "empty_q ?q' \<longleftrightarrow> tail ?q' = head q"
    using False by (simp add: getEvent_fields)
  show ?thesis
    unfolding queue_inv_def cap hd using h t nf em by auto
qed

lemma count_put:
  assumes "queue_inv q" "\<not> full q"
  shows "count (snd (putEvent q e)) = Suc (count q)"
proof -
  let ?q' = "snd (putEvent q e)"
  have h: "unat (head q) < capacity q" and t: "unat (tail q) < capacity q"
    using assms by (auto simp: queue_inv_def)
  have hd': "unat (head ?q') = Suc (unat (head q)) mod capacity q"
    by (rule put_head_unat [OF assms])
  have fl: "full ?q' \<longleftrightarrow> Suc (unat (head q)) mod capacity q = unat (tail q)"
    using assms(2) unfolding hd' [symmetric] by (auto simp: putEvent_fields unat_eq_iff8)
  have cap: "capacity ?q' = capacity q"
    using assms(2) by (simp add: capacity_def putEvent_fields)
  have tl: "tail ?q' = tail q" using assms(2) by (simp add: putEvent_fields)
  show ?thesis
    using count_put_nat [OF h t] assms(2)
    by (simp add: count_def fl cap tl hd' split: if_splits)
qed

lemma count_get:
  assumes "queue_inv q" "\<not> empty_q q"
  shows "Suc (count (snd (snd (getEvent q ev)))) = count q"
proof -
  let ?q' = "snd (snd (getEvent q ev))"
  have h: "unat (head q) < capacity q" and t: "unat (tail q) < capacity q"
    using assms by (auto simp: queue_inv_def)
  have tl': "unat (tail ?q') = Suc (unat (tail q)) mod capacity q"
    by (rule get_tail_unat [OF assms])
  have cap: "capacity ?q' = capacity q"
    using assms(2) by (simp add: capacity_def getEvent_fields)
  have hd: "head ?q' = head q" and nf: "\<not> full ?q'"
    using assms(2) by (simp_all add: getEvent_fields)
  have fl: "full q \<longleftrightarrow> unat (head q) = unat (tail q)"
    using assms by (auto simp: queue_inv_def unat_eq_iff8)
  show ?thesis
    using count_get_nat [OF h t]
    by (simp add: count_def fl cap tl' hd nf)
qed

lemma contents_put:
  assumes "queue_inv q" "\<not> full q"
  shows "contents (snd (putEvent q e)) = contents q @ [e]"
proof -
  let ?q' = "snd (putEvent q e)"
  let ?C = "capacity q"
  have h: "unat (head q) < ?C" and t: "unat (tail q) < ?C"
    using assms by (auto simp: queue_inv_def)
  have cap: "capacity ?q' = ?C"
    using assms(2) by (simp add: capacity_def putEvent_fields)
  have tl: "tail ?q' = tail q" using assms(2) by (simp add: putEvent_fields)
  have qu: "queue ?q' = (queue q)(unat (head q) := e)"
    using assms(2) by (simp add: putEvent_fields)
  have cnt: "count q = (unat (head q) + ?C - unat (tail q)) mod ?C"
    using assms(2) by (simp add: count_def)
  have last: "queue ?q' ((unat (tail q) + count q) mod ?C) = e"
    by (simp add: qu cnt ring_last [OF h t])
  have before: "queue ?q' ((unat (tail q) + i) mod ?C) = queue q ((unat (tail q) + i) mod ?C)"
    if "i < count q" for i
    using ring_before [OF h t, of i] that by (simp add: qu cnt)
  have "contents ?q' =
        map (\<lambda>i. queue ?q' ((unat (tail q) + i) mod ?C)) [0..<Suc (count q)]"
    by (simp add: contents_def cap tl count_put [OF assms])
  also have "\<dots> = map (\<lambda>i. queue ?q' ((unat (tail q) + i) mod ?C)) [0..<count q] @ [e]"
    by (simp add: last)
  also have "map (\<lambda>i. queue ?q' ((unat (tail q) + i) mod ?C)) [0..<count q] = contents q"
    unfolding contents_def by (rule map_cong) (auto simp: before)
  finally show ?thesis .
qed

lemma contents_get:
  assumes "queue_inv q" "\<not> empty_q q"
  shows "contents q = queue q (unat (tail q)) # contents (snd (snd (getEvent q ev)))"
proof -
  let ?q' = "snd (snd (getEvent q ev))"
  let ?C = "capacity q"
  have t: "unat (tail q) < ?C"
    using assms by (auto simp: queue_inv_def)
  have cap: "capacity ?q' = ?C"
    using assms(2) by (simp add: capacity_def getEvent_fields)
  have qu: "queue ?q' = queue q"
    using assms(2) by (simp add: getEvent_fields)
  have tl': "unat (tail ?q') = Suc (unat (tail q)) mod ?C"
    by (rule get_tail_unat [OF assms])
  have idx: "(Suc (unat (tail q)) mod ?C + i) mod ?C = (unat (tail q) + Suc i) mod ?C" for i
    by (simp add: mod_add_left_eq)
  have "contents q = map (\<lambda>i. queue q ((unat (tail q) + i) mod ?C)) [0..<Suc (count ?q')]"
    by (simp add: contents_def count_get [OF assms])
  also have "\<dots> = queue q (unat (tail q)) #
        map (\<lambda>i. queue q ((unat (tail q) + Suc i) mod ?C)) [0..<count ?q']"
    using t by (simp add: upt_conv_Cons map_Suc_upt [symmetric] del: upt_Suc)
  also have "map (\<lambda>i. queue q ((unat (tail q) + Suc i) mod ?C)) [0..<count ?q'] = contents ?q'"
    by (simp add: contents_def cap qu tl' idx)
  finally show ?thesis .
qed

lemma length_contents: "length (contents q) = count q"
  by (simp add: contents_def)

lemma count_bounds:
  assumes "queue_inv q"
  shows "count q \<le> capacity q" and "full q \<longleftrightarrow> count q = capacity q"
    and "empty_q q \<longleftrightarrow> count q = 0"
proof -
  have h: "unat (head q) < capacity q" and t: "unat (tail q) < capacity q"
    using assms by (auto simp: queue_inv_def)
  have ht: "head q = tail q \<longleftrightarrow> unat (head q) = unat (tail q)" by (rule unat_eq_iff8)
  show "count q \<le> capacity q" using h by (simp add: count_def less_imp_le)
  show "full q \<longleftrightarrow> count q = capacity q"
    using h t by (auto simp: count_def ring_dist split: if_splits)
  show "empty_q q \<longleftrightarrow> count q = 0"
    using assms h t ht by (auto simp: count_def queue_inv_def ring_dist split: if_splits)
qed

lemma run_ops_refines:
  assumes "queue_inv q"
  shows "fst (run_ops q ops) = fst (fifo_ops (capacity q) (contents q) ops) \<and>
         queue_inv (snd (run_ops q ops)) \<and>
         capacity (snd (run_ops q ops)) = capacity q \<and>
         contents (snd (run_ops q ops)) = snd (fifo_ops (capacity q) (contents q) ops)"
  using assms
proof (induction ops arbitrary: q)
  case Nil
  then show ?case by simp
next
  case (Cons a ops)
  show ?case
  proof (cases a)
    case (Push e)
    show ?thesis
    proof (cases "full q")
      case True
      then have len: "length (contents q) = capacity q"
        using count_bounds(2) [OF Cons.prems] by (simp add: length_contents)
      from Cons.IH [OF Cons.prems] True len show ?thesis
        by (simp add: Push putEvent_full case_prod_beta)
    next
      case False
      have len: "length (contents q) \<noteq> capacity q"
        using False count_bounds(2) [OF Cons.prems] by (simp add: length_contents)
      obtain q' where pe: "putEvent q e = (QUEUE_OK, q')"
        using putEvent_fields(1) [OF False, of e] by (cases "putEvent q e") simp
      then have q': "q' = snd (putEvent q e)" by simp
      have inv': "queue_inv q'" unfolding q' by (rule queue_inv_put [OF Cons.prems])
      have cap': "capacity q' = capacity q"
        unfolding q' using False by (simp add: capacity_def putEvent_fields)
      have cs: "contents q' = contents q @ [e]"
        unfolding q' by (rule contents_put [OF Cons.prems False])
      from Cons.IH [OF inv'] len show ?thesis
        by (simp add: Push pe cap' cs case_prod_beta)
    qed
  next
    case Pop
    show ?thesis
    proof (cases "empty_q q")
      case True
      then have nil: "contents q = []"
        using count_bounds(3) [OF Cons.prems] length_contents [of q] by simp
      from Cons.IH [OF Cons.prems] True nil show ?thesis
        by (simp add: Pop getEvent_empty case_prod_beta)
    next
      case False
      obtain q' where ge: "getEvent q 0 = (QUEUE_OK, queue q (unat (tail q)), q')"
        using getEvent_fields(1,2) [OF False, of 0] by (cases "getEvent q 0") simp
      then have q': "q' = snd (snd (getEvent q 0))" by simp
      have inv': "queue_inv q'" unfolding q' by (rule queue_inv_get [OF Cons.prems])
      have cap': "capacity q' = capacity q"
        unfolding q' using False by (simp add: capacity_def getEvent_fields)
      have cs: "contents q = queue q (unat (tail q)) # contents q'"
        unfolding q' by (rule contents_get [OF Cons.prems False])
      from Cons.IH [OF inv'] show ?thesis
        by (simp add: Pop ge cap' cs case_prod_beta)
    qed
  qed
qed

lemma fifo_ops_order:
  "prefix (popped (fst (fifo_ops C xs ops))) (xs @ accepted ops (fst (fifo_ops C xs ops)))"
proof (induction ops arbitrary: xs)
  case Nil
  then show ?case by simp
next
  case (Cons a ops)
  show ?case
  proof (cases a)
    case (Push e)
    with Cons.IH [of xs] Cons.IH [of "xs @ [e]"] show ?thesis
      by (simp add: case_prod_beta)
  next
    case Pop
    show ?thesis
    proof (cases xs)
      case Nil
      with Cons.IH [of "[]"] Pop show ?thesis by (simp add: case_prod_beta)
    next
      case (Cons x xs')
      with Cons.IH [of xs'] Pop show ?thesis by (simp add: case_prod_beta)
    qed
  qed
qed

lemma fifo_ops_fill:
  assumes "length xs + length es \<le> C"
  shows "fifo_ops C xs (map Push es @ ops) =
         (replicate (length es) (Pushed QUEUE_OK) @ fst (fifo_ops C (xs @ es) ops),
          snd (fifo_ops C (xs @ es) ops))"
  using assms
proof (induction es arbitrary: xs)
  case Nil
  then show ?case by simp
next
  case (Cons e es)
  from Cons.prems have "length xs \<noteq> C" "length (xs @ [e]) + length es \<le> C" by simp_all
  with Cons.IH [of "xs @ [e]"] show ?case by simp
qed

lemma capacity_init: "capacity (initEventQueue eq buf len) = unat len"
  by (simp add: capacity_def initEventQueue_def)

lemma run_ops_init:
  assumes "1 \<le> unat len"
  shows "fst (run_ops (initEventQueue eq buf len) ops) = fst (fifo_ops (unat len) [] ops)"
    and "full (snd (run_ops (initEventQueue eq buf len) ops)) \<longleftrightarrow>
         length (snd (fifo_ops (unat len) [] ops)) = unat len"
    and "empty_q (snd (run_ops (initEventQueue eq buf len) ops)) \<longleftrightarrow>
         snd (fifo_ops (unat len) [] ops) = []"
proof -
  let ?q = "initEventQueue eq buf len"
  note r = run_ops_refines [OF queue_inv_init [OF assms, of eq buf], of ops,
      unfolded capacity_init contents_init]
  from r show "fst (run_ops ?q ops) = fst (fifo_ops (unat len) [] ops)" by simp
  from r have inv: "queue_inv (snd (run_ops ?q ops))"
    and cap: "capacity (snd (run_ops ?q ops)) = unat len"
    and cs: "contents (snd (run_ops ?q ops)) = snd (fifo_ops (unat len) [] ops)"
    by simp_all
  show "full (snd (run_ops ?q ops)) \<longleftrightarrow> length (snd (fifo_ops (unat len) [] ops)) = unat len"
    using count_bounds(2) [OF inv] by (simp add: cap cs [symmetric] length_contents)
  show "empty_q (snd (run_ops ?q ops)) \<longleftrightarrow> snd (fifo_ops (unat len) [] ops) = []"
    using count_bounds(3) [OF inv] length_contents [of "snd (run_ops ?q ops)"]
    unfolding cs by (metis length_0_conv)
qed

lemma flags_put:
  "\<not> (full (snd (putEvent q e)) \<and> empty_q (snd (putEvent q e))) \<or> (full q \<and> empty_q q)"
  by (simp add: putEvent_def Let_def)

lemma flags_get:
  "\<not> (full (snd (snd (getEvent q ev))) \<and> empty_q (snd (snd (getEvent q ev)))) \<or> (full q \<and> empty_q q)"
  by (simp add: getEvent_def Let_def)

lemma flags_inv_put: "flags_inv q \<Longrightarrow> flags_inv (snd (putEvent q e))"
  by (auto simp: flags_inv_def putEvent_def Let_def)

lemma flags_inv_get: "flags_inv q \<Longrightarrow> flags_inv (snd (snd (getEvent q ev)))"
  by (auto simp: flags_inv_def getEvent_def Let_def)

lemma flags_inv_run: "flags_inv q \<Longrightarrow> flags_inv (snd (run_ops q ops))"
proof (induction ops arbitrary: q)
  case Nil
  then show ?case by simp
next
  case (Cons a ops)
  show ?case
  proof (cases a)
    case (Push e)
    with Cons.IH [OF flags_inv_put [OF Cons.prems, of e]] show ?thesis
      by (simp add: case_prod_beta)
  next
    case Pop
    with Cons.IH [OF flags_inv_get [OF Cons.prems, of 0]] show ?thesis
      by (simp add: case_prod_beta)
  qed
qed

section \<open>Properties of the transition algorithm\<close>

subsection \<open>Ancestor chains\<close>

lemma chain_nonempty: "chain par n s \<noteq> []"
  by (cases n) auto

lemma chain_length: "length (chain par n s) \<le> Suc n"
  by (induction n arbitrary: s) auto

lemma chain_hd: "chain par n s ! 0 = s"
  by (cases n) auto

lemma chain_step:
  "Suc i < length (chain par n s) \<Longrightarrow>
   chain par n s ! Suc i = par (chain par n s ! i) \<and> par (chain par n s ! i) \<noteq> chain par n s ! i"
proof (induction n arbitrary: s i)
  case 0
  then show ?case by simp
next
  case (Suc n)
  show ?case
  proof (cases "par s = s")
    case True
    with Suc.prems show ?thesis by simp
  next
    case False
    show ?thesis
    proof (cases i)
      case 0
      with False show ?thesis by (simp add: chain_hd)
    next
      case (Suc j)
      with Suc.prems False have "Suc j < length (chain par n (par s))" by simp
      from Suc.IH [OF this] Suc False show ?thesis by simp
    qed
  qed
qed

lemma climbs_chain:
  "par (last (chain par n s)) = last (chain par n s) \<Longrightarrow> climbs par (chain par n s)"
  unfolding climbs_def using chain_nonempty [of par n s] chain_step [of _ par n s] by blast

lemma climbs_ancestors:
  "within_depth st s \<Longrightarrow> climbs (\<lambda>x. parent (st x)) (ancestors st s)"
  unfolding within_depth_def ancestors_def by (rule climbs_chain)

lemma unat_succ8: "unat (c :: 8 word) < 16 \<Longrightarrow> unat (c + 1) = Suc (unat c)"
proof -
  assume "unat c < 16"
  then have "unat c + 1 < 2 ^ LENGTH(8)" by simp
  then have "unat (c + 1) = unat c + 1" by (metis unat_1 unat_add_lem)
  then show ?thesis by simp
qed

lemma walk_path_chain:
  assumes "par (last (chain par n x)) = last (chain par n x)"
    and "path (unat c) = x"
    and "unat c + length (chain par n x) \<le> 16"
  shows "\<exists>path'. walk_path par c path = Inr (c + of_nat (length (chain par n x) - 1), path') \<and>
           (\<forall>k < length (chain par n x). path' (unat c + k) = chain par n x ! k) \<and>
           (\<forall>i < unat c. path' i = path i)"
  using assms
proof (induction n arbitrary: c path x)
  case 0
  then have "unat c < 16" "par x = x" by simp_all
  with 0 show ?case by (subst walk_path.simps) simp
next
  case (Suc n)
  show ?case
  proof (cases "par x = x")
    case True
    from Suc.prems True have "unat c < 16" by simp
    with Suc.prems True show ?thesis by (subst walk_path.simps) simp
  next
    case False
    let ?ys = "chain par n (par x)"
    have ch: "chain par (Suc n) x = x # ?ys" using False by simp
    have ne: "?ys \<noteq> []" by (rule chain_nonempty)
    then have len1: "1 \<le> length ?ys" by (cases ?ys) auto
    from Suc.prems(3) False len1 have c15: "unat c < 15" by simp
    then have c16: "unat c < 16" by simp
    have s: "unat (c + 1) = Suc (unat c)" by (rule unat_succ8 [OF c16])
    let ?path1 = "path(unat (c + 1) := par (path (unat (c + 1) - 1)))"
    have r: "par (last ?ys) = last ?ys" using Suc.prems(1) False ne by simp
    have p1: "?path1 (unat (c + 1)) = par x" using Suc.prems(2) s by simp
    have b: "unat (c + 1) + length ?ys \<le> 16" using Suc.prems(3) False s by simp
    from Suc.IH [of "par x" ?path1 "c + 1", OF r p1 b] obtain path' where
      w: "walk_path par (c + 1) ?path1 = Inr (c + 1 + of_nat (length ?ys - 1), path')"
      and k: "\<forall>k < length ?ys. path' (unat (c + 1) + k) = ?ys ! k"
      and i: "\<forall>i < unat (c + 1). path' i = ?path1 i"
      by blast
    have step: "walk_path par c path = walk_path par (c + 1) ?path1"
      using c16 c15 s Suc.prems(2) False by (subst walk_path.simps) simp
    have cnt: "c + 1 + of_nat (length ?ys - 1) = c + of_nat (length (chain par (Suc n) x) - 1)"
    proof -
      have "length (chain par (Suc n) x) - 1 = length ?ys" using False by simp
      moreover have "(of_nat (length ?ys - 1) :: 8 word) = of_nat (length ?ys) - 1"
        using len1 by (simp add: of_nat_diff)
      ultimately show ?thesis by simp
    qed
    have k': "path' (unat c + k) = chain par (Suc n) x ! k" if "k < length (chain par (Suc n) x)" for k
    proof (cases k)
      case 0
      have "path' (unat c) = ?path1 (unat c)" using i s by simp
      with 0 Suc.prems(2) s False show ?thesis by simp
    next
      case (Suc j)
      with that False have "j < length ?ys" by simp
      with k have "path' (unat (c + 1) + j) = ?ys ! j" by blast
      with Suc s False show ?thesis by simp
    qed
    have i': "path' j = path j" if "j < unat c" for j
      using i s that by simp
    from step w cnt k' i' show ?thesis by auto
  qed
qed

lemma walk_path_ancestors:
  assumes "within_depth st s"
  shows "\<exists>path'. walk_path (\<lambda>x. parent (st x)) 0 (path(0 := s)) =
             Inr (of_nat (length (ancestors st s) - 1), path') \<and>
           (\<forall>k < length (ancestors st s). path' k = ancestors st s ! k)"
proof -
  have l: "length (ancestors st s) \<le> 16"
    using chain_length [of "\<lambda>x. parent (st x)" 15 s] by (simp add: ancestors_def)
  have "\<exists>path'. walk_path (\<lambda>x. parent (st x)) 0 (path(0 := s)) =
      Inr (0 + of_nat (length (chain (\<lambda>x. parent (st x)) 15 s) - 1), path') \<and>
      (\<forall>k < length (chain (\<lambda>x. parent (st x)) 15 s).
          path' (unat (0 :: 8 word) + k) = chain (\<lambda>x. parent (st x)) 15 s ! k) \<and>
      (\<forall>i < unat (0 :: 8 word). path' i = (path(0 := s)) i)"
    using assms l
    by (intro walk_path_chain) (simp_all add: within_depth_def ancestors_def)
  then show ?thesis by (simp add: ancestors_def)
qed

subsection \<open>Pruning the common ancestors\<close>

lemma climbs_root_iff:
  assumes "climbs par xs" "i < length xs"
  shows "par (xs ! i) = xs ! i \<longleftrightarrow> Suc i = length xs"
proof
  assume "par (xs ! i) = xs ! i"
  with assms show "Suc i = length xs"
    unfolding climbs_def by (metis Suc_lessI)
next
  assume "Suc i = length xs"
  then have "xs ! i = last xs" using assms by (metis diff_Suc_1 last_conv_nth list.size(3) nat.simps(3))
  with assms show "par (xs ! i) = xs ! i" unfolding climbs_def by simp
qed

lemma climbs_next:
  assumes "climbs par xs" "Suc i < length xs"
  shows "xs ! Suc i = par (xs ! i)"
  using assms unfolding climbs_def by blast

lemma climbs_follow:
  assumes "climbs par U" "climbs par D" "i < length U" "j < length D" "U ! i = D ! j"
    and "i + k < length U"
  shows "j + k < length D \<and> U ! (i + k) = D ! (j + k)"
  using assms(6)
proof (induction k)
  case 0
  with assms show ?case by simp
next
  case (Suc k)
  then have ik: "i + k < length U" and IH: "j + k < length D" "U ! (i + k) = D ! (j + k)"
    by simp_all
  have "par (U ! (i + k)) \<noteq> U ! (i + k)"
    using climbs_root_iff [OF assms(1) ik] Suc.prems by simp
  then have "par (D ! (j + k)) \<noteq> D ! (j + k)" using IH by simp
  then have jk: "Suc (j + k) < length D"
    using climbs_root_iff [OF assms(2) IH(1)] IH(1) by (simp add: Suc_lessI)
  have "U ! Suc (i + k) = par (U ! (i + k))"
    using climbs_next [OF assms(1)] Suc.prems by simp
  moreover have "D ! Suc (j + k) = par (D ! (j + k))"
    by (rule climbs_next [OF assms(2) jk])
  ultimately show ?case using jk IH by simp
qed

lemma climbs_align:
  assumes "climbs par U" "climbs par D" "i < length U" "j < length D" "U ! i = D ! j"
  shows "length U - i = length D - j"
proof -
  have a: "length U - i \<le> length D - j" if "climbs par U" "climbs par D" "i < length U"
    "j < length D" "U ! i = D ! j" for U D :: "'a list" and i j
  proof -
    have "i + (length U - i - 1) < length U" using that(3) by simp
    from climbs_follow [OF that this] have "j + (length U - i - 1) < length D" by simp
    then show ?thesis by simp
  qed
  from a [OF assms] a [OF assms(2,1,4,3) assms(5) [symmetric]] show ?thesis by simp
qed

text \<open>Two aligned positions that differ: nothing at or below them is shared.\<close>

lemma climbs_mismatch:
  assumes "climbs par U" "climbs par D" "c < length U" "d < length D"
    and "length U - c = length D - d" and "U ! c \<noteq> D ! d" and "j \<le> d"
  shows "D ! j \<notin> set U"
proof
  assume "D ! j \<in> set U"
  then obtain i where i: "i < length U" "U ! i = D ! j" by (auto simp: in_set_conv_nth)
  have j: "j < length D" using assms(4,7) by simp
  have al: "length U - i = length D - j" by (rule climbs_align [OF assms(1,2) i(1) j i(2)])
  have "i + (d - j) = c" using al assms(3,4,5,7) i(1) by simp
  then have "i + (d - j) < length U" using assms(3) by simp
  from climbs_follow [OF assms(1,2) i(1) j i(2) this] \<open>i + (d - j) = c\<close> assms(7)
  have "U ! c = D ! d" by simp
  with assms(6) show False by simp
qed

lemma climbs_below:
  assumes "climbs par U" "climbs par D" "c < length U" "d < length D"
    and "length U - c = length D - d" and "c = 0" and "j < d"
  shows "D ! j \<notin> set U"
proof
  assume "D ! j \<in> set U"
  then obtain i where i: "i < length U" "U ! i = D ! j" by (auto simp: in_set_conv_nth)
  have j: "j < length D" using assms(4,7) by simp
  have "length U - i = length D - j" by (rule climbs_align [OF assms(1,2) i(1) j i(2)])
  with assms(3,4,5,6,7) i(1) show False by simp
qed

lemma prune_spec:
  assumes cu: "climbs par U" and cd: "climbs par D"
    and up: "\<forall>k < length U. up k = U ! k" and down: "\<forall>k < length D. down k = D ! k"
    and ne: "U ! 0 \<noteq> D ! 0"
    and c: "unat c < length U" and d: "unat d < length D"
    and al: "length U - unat c = length D - unat d"
    and inv: "\<forall>k. 0 < k \<and> unat c + k < length U \<longrightarrow> U ! (unat c + k) = D ! (unat d + k)"
  shows "\<exists>c' d' nx ne. prune up down c d = (c', d', nx, ne) \<and>
           (nx \<longleftrightarrow> U ! 0 \<in> set D) \<and> (ne \<longleftrightarrow> D ! 0 \<in> set U) \<and> unat c' \<le> unat c \<and>
           (\<not> ne \<longrightarrow> unat d' < length D \<and>
                      take (Suc (unat d')) D = takeWhile (\<lambda>x. x \<notin> set U) D)"
  using c d al inv
proof (induction m \<equiv> "unat c" arbitrary: c d)
  case 0
  then have c0: "c = 0" by (simp add: unat_eq_0)
  note d = "0.prems"(2) and al = "0.prems"(3)
  have U0: "0 < length U" using "0.prems"(1) by auto
  show ?case
  proof (cases "U ! 0 = D ! unat d")
    case True
    have dn: "unat d \<noteq> 0"
    proof
      assume "unat d = 0"
      with True ne show False by simp
    qed
    then have d0: "d \<noteq> 0" by (auto simp: unat_eq_0)
    have d1: "unat (d - 1) = unat d - 1" by (rule unat_minus_one [OF d0])
    have pr: "prune up down c d = (c, d - 1, True, False)"
      using True up down U0 d c0 by (subst prune.simps) simp
    have inD: "U ! 0 \<in> set D" using True d by (metis nth_mem)
    have below: "D ! j \<notin> set U" if "j < unat d" for j
      using climbs_below [OF cu cd U0 d _ refl that] al c0 by simp
    have notin: "D ! 0 \<notin> set U" using below [of 0] dn by simp
    have tk: "takeWhile (\<lambda>x. x \<notin> set U) D = take (unat d) D"
    proof (rule takeWhile_eq_take_P_nth)
      fix i assume "i < unat d" then show "D ! i \<notin> set U" by (rule below)
    next
      show "\<not> D ! unat d \<notin> set U" using True U0 by (metis nth_mem)
    qed
    have sd: "Suc (unat (d - 1)) = unat d" using d1 dn by simp
    show ?thesis
      unfolding pr using inD notin tk d sd by auto
  next
    case False
    have pr: "prune up down c d = (c, d, False, False)"
      using False up down U0 d c0 by (subst prune.simps) simp
    have al': "length D - unat d = length U - 0" using al c0 by simp
    have notD: "U ! 0 \<notin> set D"
      using climbs_mismatch [OF cd cu d U0 al' False [symmetric]] by simp
    have notU: "D ! j \<notin> set U" if "j \<le> unat d" for j
      using climbs_mismatch [OF cu cd U0 d al' [symmetric] False that] .
    have tk: "takeWhile (\<lambda>x. x \<notin> set U) D = take (Suc (unat d)) D"
    proof (rule takeWhile_eq_take_P_nth)
      fix i assume "i < Suc (unat d)" then show "D ! i \<notin> set U" using notU [of i] by simp
    next
      assume "Suc (unat d) < length D"
      with al c0 have "0 + 1 < length U" by simp
      with "0.prems"(4) [rule_format, of 1] c0 have "U ! 1 = D ! (unat d + 1)" by simp
      moreover have "U ! 1 \<in> set U" using \<open>0 + 1 < length U\<close> by simp
      ultimately show "\<not> D ! Suc (unat d) \<notin> set U" by simp
    qed
    show ?thesis unfolding pr using notD notU [of 0] tk d by auto
  qed
next
  case (Suc m)
  note c = Suc.prems(1) and d = Suc.prems(2) and al = Suc.prems(3) and inv = Suc.prems(4)
  have cm: "unat c = Suc m" using Suc.hyps(2) by simp
  then have c0: "c \<noteq> 0" by auto
  have c1: "unat (c - 1) = m" using unat_minus_one [OF c0] cm by simp
  have upc: "up (unat c) = U ! unat c" using up c by simp
  have dnd: "down (unat d) = D ! unat d" using down d by simp
  have U0: "0 < length U" using c by auto
  have D0: "0 < length D" using d by auto
  show ?case
  proof (cases "U ! unat c = D ! unat d")
    case False
    have pr: "prune up down c d = (c, d, False, False)"
      using False upc dnd by (subst prune.simps) simp
    have notD: "U ! 0 \<notin> set D"
      using climbs_mismatch [OF cd cu d c al [symmetric] False [symmetric]] by simp
    have notU: "D ! j \<notin> set U" if "j \<le> unat d" for j
      using climbs_mismatch [OF cu cd c d al False that] .
    have tk: "takeWhile (\<lambda>x. x \<notin> set U) D = take (Suc (unat d)) D"
    proof (rule takeWhile_eq_take_P_nth)
      fix i assume "i < Suc (unat d)" then show "D ! i \<notin> set U" using notU [of i] by simp
    next
      assume "Suc (unat d) < length D"
      with al c d have l: "unat c + 1 < length U" by simp
      with inv [rule_format, of 1] have "U ! (unat c + 1) = D ! (unat d + 1)" by simp
      moreover have "U ! (unat c + 1) \<in> set U" using l by simp
      ultimately show "\<not> D ! Suc (unat d) \<notin> set U" by simp
    qed
    show ?thesis unfolding pr using notD notU [of 0] tk d by auto
  next
    case True
    show ?thesis
    proof (cases "d = 0")
      case d0: True
      have pr: "prune up down c d = (c - 1, d, False, True)"
        using True upc dnd c0 d0 by (subst prune.simps) simp
      have inU: "D ! 0 \<in> set U" using True d0 c by (metis nth_mem unat_0)
      have al': "length D - 0 = length U - unat c" using al d0 by simp
      have "0 < unat c" using cm by simp
      from climbs_below [OF cd cu D0 c al' refl this]
      have notD: "U ! 0 \<notin> set D" .
      show ?thesis unfolding pr using inU notD c1 cm by auto
    next
      case d0: False
      have d1: "unat (d - 1) = unat d - 1" by (rule unat_minus_one [OF d0])
      have dpos: "0 < unat d" using d0 by (simp add: unat_gt_0)
      have pr: "prune up down c d = prune up down (c - 1) (d - 1)"
        using True upc dnd c0 d0 by (subst prune.simps) simp
      have h1: "m = unat (c - 1)" using c1 by simp
      have h2: "unat (c - 1) < length U" using c c1 cm by simp
      have h3: "unat (d - 1) < length D" using d d1 by simp
      have h4: "length U - unat (c - 1) = length D - unat (d - 1)"
        using al c d c1 cm d1 dpos by simp
      have h5: "\<forall>k. 0 < k \<and> unat (c - 1) + k < length U \<longrightarrow>
                  U ! (unat (c - 1) + k) = D ! (unat (d - 1) + k)"
      proof (intro allI impI)
        fix k assume k: "0 < k \<and> unat (c - 1) + k < length U"
        then obtain j where kj: "k = Suc j" by (cases k) auto
        have e1: "unat (c - 1) + k = unat c + j" using c1 cm kj by simp
        have e2: "unat (d - 1) + k = unat d + j" using d1 dpos kj by simp
        show "U ! (unat (c - 1) + k) = D ! (unat (d - 1) + k)"
        proof (cases j)
          case 0
          with \<open>U ! unat c = D ! unat d\<close> show ?thesis unfolding e1 e2 by simp
        next
          case (Suc i)
          with k e1 have "0 < j \<and> unat c + j < length U" by simp
          from inv [rule_format, OF this] show ?thesis unfolding e1 e2 .
        qed
      qed
      from Suc.hyps(1) [OF h1 h2 h3 h4 h5] obtain c' d' nx ne' where
        r: "prune up down (c - 1) (d - 1) = (c', d', nx, ne')"
          "nx \<longleftrightarrow> U ! 0 \<in> set D" "ne' \<longleftrightarrow> D ! 0 \<in> set U" "unat c' \<le> unat (c - 1)"
          "\<not> ne' \<longrightarrow> unat d' < length D \<and>
              take (Suc (unat d')) D = takeWhile (\<lambda>x. x \<notin> set U) D"
        by blast
      have "unat c' \<le> unat c" using r(4) c1 cm by simp
      with r show ?thesis unfolding pr by auto
    qed
  qed
qed

subsection \<open>Exit and entry loops, and the whole transition\<close>

lemma call_quiet:
  assumes "quiet_actions st"
  shows "call_handler st s HSM_ON_EXIT w = w\<lparr>trace := trace w @ [(s, HSM_ON_EXIT, currentState w)]\<rparr>"
    and "call_handler st s HSM_ON_ENTRY w = w\<lparr>trace := trace w @ [(s, HSM_ON_ENTRY, currentState w)]\<rparr>"
  using assms by (simp_all add: call_handler_def quiet_actions_def)

lemma exit_loop_once:
  assumes "quiet_actions st" "unat c < 16"
  shows "exit_loop st c 0 w =
         Inr (w\<lparr>trace := trace w @ [(up_path w 0, HSM_ON_EXIT, currentState w)]\<rparr>)"
proof -
  have m: "unat (- 1 :: 8 word) = 255"
    by (simp add: unsigned_minus_1_eq_mask mask_eq_exp_minus_1)
  have "\<not> (- 1 :: 8 word) \<le> c"
    using assms(2) m by (simp add: word_le_nat_alt)
  then have stop: "exit_loop st c (- 1) w' = Inr w'" for w'
    by (subst exit_loop.simps) simp
  show ?thesis
    by (subst exit_loop.simps) (simp add: call_quiet [OF assms(1)] stop)
qed

lemma entry_loop_rev:
  assumes "quiet_actions st" "unat d < 16"
  shows "entry_loop st (d + 1) w =
         Inr (w\<lparr>trace := trace w @
                map (\<lambda>k. (down_path w k, HSM_ON_ENTRY, currentState w)) (rev [0..<Suc (unat d)])\<rparr>)"
  using assms(2)
proof (induction n \<equiv> "unat d" arbitrary: d w)
  case 0
  then have "d = 0" by (simp add: unat_eq_0)
  then show ?case
    by (subst entry_loop.simps) (simp add: call_quiet [OF assms(1)])
next
  case (Suc n)
  then have d0: "d \<noteq> 0" by auto
  have d1: "unat (d - 1) = n" using unat_minus_one [OF d0] Suc.hyps(2) by simp
  have dn: "unat d = Suc n" using Suc.hyps(2) by simp
  let ?w1 = "w\<lparr>trace := trace w @ [(down_path w (unat d), HSM_ON_ENTRY, currentState w)]\<rparr>"
  have step: "entry_loop st (d + 1) w = entry_loop st (d - 1 + 1) ?w1"
    using d0 Suc.prems by (subst entry_loop.simps) (simp add: call_quiet [OF assms(1)])
  have "unat (d - 1) < 16" using d1 dn Suc.prems by simp
  from Suc.hyps(1) [OF d1 [symmetric] this, of ?w1]
  show ?case unfolding step by (simp add: d1 dn)
qed

lemma map_nth_take: "n \<le> length xs \<Longrightarrow> map (\<lambda>k. xs ! k) [0..<n] = take n xs"
  by (simp add: list_eq_iff_nth_eq)

lemma ancestors_length: "Suc 0 \<le> length (ancestors st s)" "length (ancestors st s) \<le> 16"
  using chain_nonempty [of "\<lambda>x. parent (st x)" 15 s] chain_length [of "\<lambda>x. parent (st x)" 15 s]
  by (simp_all add: ancestors_def Suc_le_eq)

lemma ancestors_hd: "ancestors st s ! 0 = s"
  by (simp add: ancestors_def chain_hd)

lemma ancestors_self: "s \<in> set (ancestors st s)"
  using ancestors_hd [of st s] ancestors_length(1) [of st s] by (metis Suc_le_lessD nth_mem)

lemma entry_chain_Nil: "entry_chain st S T = [] \<longleftrightarrow> T \<in> set (ancestors st S)"
proof -
  obtain ys where "ancestors st T = T # ys"
    using ancestors_hd [of st T] ancestors_length(1) [of st T]
    by (cases "ancestors st T") auto
  then show ?thesis by (simp add: entry_chain_def)
qed

lemma exit_chain_Nil: "exit_chain st S T = [] \<longleftrightarrow> S \<in> set (ancestors st T)"
proof -
  obtain ys where "ancestors st S = S # ys"
    using ancestors_hd [of st S] ancestors_length(1) [of st S]
    by (cases "ancestors st S") auto
  then show ?thesis by (simp add: exit_chain_def)
qed

lemma unat_of_nat8: "n < 256 \<Longrightarrow> unat (of_nat n :: 8 word) = n"
  by (simp add: unat_of_nat)

lemma setState_general:
  assumes q: "quiet_actions st" and ne: "currentState w \<noteq> T"
    and dS: "within_depth st (currentState w)" and dT: "within_depth st T"
  shows "\<exists>up down. setState st w T =
           Inr (sendEvent
                 (w\<lparr>up_path := up, down_path := down,
                    trace := trace w @
                      (if currentState w \<in> set (ancestors st T) then []
                       else [(currentState w, HSM_ON_EXIT, currentState w)]) @
                      map (\<lambda>s. (s, HSM_ON_ENTRY, currentState w)) (entry_chain st (currentState w) T),
                    currentState := T\<rparr>)
                 HSM_INITIAL)"
proof -
  let ?S = "currentState w"
  let ?par = "\<lambda>x. parent (st x)"
  let ?U = "ancestors st ?S" and ?D = "ancestors st T"
  obtain up where wu: "walk_path ?par 0 ((up_path w)(0 := ?S)) = Inr (of_nat (length ?U - 1), up)"
    and up: "\<forall>k < length ?U. up k = ?U ! k"
    using walk_path_ancestors [OF dS, of "up_path w"] by blast
  obtain down where wd: "walk_path ?par 0 ((down_path w)(0 := T)) = Inr (of_nat (length ?D - 1), down)"
    and down: "\<forall>k < length ?D. down k = ?D ! k"
    using walk_path_ancestors [OF dT, of "down_path w"] by blast
  define c :: "8 word" where "c = of_nat (length ?U - 1)"
  define d :: "8 word" where "d = of_nat (length ?D - 1)"
  note wu = wu [folded c_def] and wd = wd [folded d_def]
  have lU: "Suc 0 \<le> length ?U" "length ?U \<le> 16"
    and lD: "Suc 0 \<le> length ?D" "length ?D \<le> 16"
    by (rule ancestors_length)+
  have uc: "unat c = length ?U - 1" unfolding c_def using lU by (intro unat_of_nat8) simp
  have ud: "unat d = length ?D - 1" unfolding d_def using lD by (intro unat_of_nat8) simp
  have ne0: "?U ! 0 \<noteq> ?D ! 0" using ne by (simp add: ancestors_hd)
  have "\<exists>c' d' nx ne. prune up down c d = (c', d', nx, ne) \<and>
           (nx \<longleftrightarrow> ?U ! 0 \<in> set ?D) \<and> (ne \<longleftrightarrow> ?D ! 0 \<in> set ?U) \<and> unat c' \<le> unat c \<and>
           (\<not> ne \<longrightarrow> unat d' < length ?D \<and>
                      take (Suc (unat d')) ?D = takeWhile (\<lambda>x. x \<notin> set ?U) ?D)"
  proof (rule prune_spec [OF climbs_ancestors [OF dS] climbs_ancestors [OF dT] up down ne0])
    show "unat c < length ?U" using uc lU by simp
    show "unat d < length ?D" using ud lD by simp
    show "length ?U - unat c = length ?D - unat d" using uc ud lU lD by simp
    show "\<forall>k. 0 < k \<and> unat c + k < length ?U \<longrightarrow> ?U ! (unat c + k) = ?D ! (unat d + k)"
      using uc lU by auto
  qed
  then obtain c' d' nx ne' where pr: "prune up down c d = (c', d', nx, ne')"
    and nx: "nx \<longleftrightarrow> ?S \<in> set ?D" and ne': "ne' \<longleftrightarrow> T \<in> set ?U"
    and c': "unat c' \<le> unat c"
    and d': "\<not> ne' \<longrightarrow> unat d' < length ?D \<and>
                      take (Suc (unat d')) ?D = takeWhile (\<lambda>x. x \<notin> set ?U) ?D"
    unfolding ancestors_hd by blast
  have c16: "unat c' < 16" using c' uc lU by simp
  let ?w2 = "w\<lparr>up_path := up, down_path := down\<rparr>"
  let ?ex = "if ?S \<in> set ?D then [] else [(?S, HSM_ON_EXIT, ?S)]"
  let ?w3 = "?w2\<lparr>trace := trace w @ ?ex\<rparr>"
  have up0: "up 0 = ?S"
  proof -
    have "0 < length ?U" using lU(1) by (simp only: Suc_le_eq)
    with up have "up 0 = ?U ! 0" by blast
    then show ?thesis by (simp add: ancestors_hd)
  qed
  have exit_phase:
    "(if nx = False then exit_loop st c' 0 ?w2 else Inr ?w2) = Inr ?w3"
    using nx by (simp add: exit_loop_once [OF q c16] up0)
  let ?en = "map (\<lambda>s. (s, HSM_ON_ENTRY, ?S)) (entry_chain st ?S T)"
  let ?w4 = "?w3\<lparr>trace := trace w @ ?ex @ ?en\<rparr>"
  have entry_phase:
    "(if ne' = False then entry_loop st (d' + 1) ?w3 else Inr ?w3) = Inr ?w4"
  proof (cases ne')
    case True
    then have "entry_chain st ?S T = []" using ne' by (simp add: entry_chain_Nil)
    with True show ?thesis by simp
  next
    case False
    with d' have dl: "unat d' < length ?D"
      and tk: "take (Suc (unat d')) ?D = takeWhile (\<lambda>x. x \<notin> set ?U) ?D" by simp_all
    have d16: "unat d' < 16" using dl lD by simp
    have "map down [0..<Suc (unat d')] = map (\<lambda>k. ?D ! k) [0..<Suc (unat d')]"
      using dl down by (intro map_cong) auto
    also have "\<dots> = take (Suc (unat d')) ?D"
      using dl by (intro map_nth_take) simp
    finally have m: "map down [0..<Suc (unat d')] = takeWhile (\<lambda>x. x \<notin> set ?U) ?D"
      using tk by simp
    have "map (\<lambda>k. (down k, HSM_ON_ENTRY, ?S)) (rev [0..<Suc (unat d')]) =
          map (\<lambda>s. (s, HSM_ON_ENTRY, ?S)) (rev (map down [0..<Suc (unat d')]))"
      by (simp only: rev_map map_map comp_def)
    also have "\<dots> = ?en" unfolding m entry_chain_def ..
    finally have en: "map (\<lambda>k. (down k, HSM_ON_ENTRY, ?S)) (rev [0..<Suc (unat d')]) = ?en" .
    from False show ?thesis
      by (simp add: entry_loop_rev [OF q d16] en del: upt_Suc)
  qed
  have "setState st w T = Inr (sendEvent (?w4\<lparr>currentState := T\<rparr>) HSM_INITIAL)"
    using ne unfolding setState_def
    by (simp only: if_False wu wd sum.case prod.case pr exit_phase entry_phase)
  then show ?thesis by (intro exI [of _ up] exI [of _ down]) simp
qed

lemma sendEvent_fields:
  "eventQueue (sendEvent w e) = snd (putEvent (eventQueue w) e)"
  "currentState (sendEvent w e) = currentState w"
  "trace (sendEvent w e) = trace w"
  "up_path (sendEvent w e) = up_path w"
  "down_path (sendEvent w e) = down_path w"
  "irq_enabled (sendEvent w e) = True"
  by (simp_all add: sendEvent_def Let_def)

lemma ev_distinct:
  "HSM_ON_EXIT \<noteq> HSM_ON_ENTRY" "HSM_ON_ENTRY \<noteq> HSM_ON_EXIT"
  "HSM_INITIAL \<noteq> HSM_ON_ENTRY" "HSM_INITIAL \<noteq> HSM_ON_EXIT"
  "HSM_ON_ENTRY \<noteq> HSM_INITIAL" "HSM_ON_EXIT \<noteq> HSM_INITIAL"
  by (simp_all add: HSM_ON_EXIT_def HSM_ON_ENTRY_def HSM_INITIAL_def)

lemma quiet_demo: "quiet_actions demo_states"
  by (simp add: quiet_actions_def demo_states_def)

lemma setState_self_eq:
  assumes "quiet_actions st" "currentState w = S"
  shows "setState st w S =
         Inr (sendEvent (w\<lparr>trace := trace w @ [(S, HSM_ON_EXIT, S), (S, HSM_ON_ENTRY, S)]\<rparr>)
                HSM_INITIAL)"
  using assms(2) by (simp add: setState_def Let_def call_quiet [OF assms(1)])

lemma climbs_distinct:
  assumes "climbs par xs"
  shows "distinct xs"
proof -
  have "i = j" if "i < length xs" "j < length xs" "xs ! i = xs ! j" for i j
    using climbs_align [OF assms assms that] that by simp
  then show ?thesis by (auto simp: distinct_conv_nth)
qed

lemma entry_chain_distinct:
  assumes "within_depth st T"
  shows "distinct (entry_chain st S T)"
  unfolding entry_chain_def
  using climbs_distinct [OF climbs_ancestors [OF assms]] by (simp add: distinct_takeWhile)

subsection \<open>The transition with arbitrary actions\<close>

lemma fire_append: "fire st (xs @ ys) w = fire st ys (fire st xs w)"
  by (induction xs arbitrary: w) auto

lemma call_fire: "call_handler st s ev w = fire st [(s, ev)] w"
  by (simp add: call_handler_def)

lemma exit_loop_any:
  assumes "unat c < 16"
  shows "exit_loop st c 0 w = Inr (fire st [(up_path w 0, HSM_ON_EXIT)] w)"
proof -
  have m: "unat (- 1 :: 8 word) = 255"
    by (simp add: unsigned_minus_1_eq_mask mask_eq_exp_minus_1)
  have "\<not> (- 1 :: 8 word) \<le> c"
    using assms m by (simp add: word_le_nat_alt)
  then have stop: "exit_loop st c (- 1) w' = Inr w'" for w'
    by (subst exit_loop.simps) simp
  show ?thesis
    by (subst exit_loop.simps) (simp add: call_handler_def stop)
qed

lemma down_path_call:
  assumes "down_path_kept st"
  shows "down_path (call_handler st s HSM_ON_EXIT w) = down_path w"
    and "down_path (call_handler st s HSM_ON_ENTRY w) = down_path w"
  using assms by (simp_all add: call_handler_def down_path_kept_def)

lemma entry_loop_kept:
  assumes "down_path_kept st" "unat d < 16"
  shows "entry_loop st (d + 1) w =
         Inr (fire st (map (\<lambda>k. (down_path w k, HSM_ON_ENTRY)) (rev [0..<Suc (unat d)])) w)"
  using assms(2)
proof (induction n \<equiv> "unat d" arbitrary: d w)
  case 0
  then have "d = 0" by (simp add: unat_eq_0)
  then show ?case
    by (subst entry_loop.simps) (simp add: call_handler_def)
next
  case (Suc n)
  then have d0: "d \<noteq> 0" by auto
  have d1: "unat (d - 1) = n" using unat_minus_one [OF d0] Suc.hyps(2) by simp
  have dn: "unat d = Suc n" using Suc.hyps(2) by simp
  let ?w1 = "call_handler st (down_path w (unat d)) HSM_ON_ENTRY w"
  have step: "entry_loop st (d + 1) w = entry_loop st (d - 1 + 1) ?w1"
    using d0 Suc.prems by (subst entry_loop.simps) simp
  have "unat (d - 1) < 16" using d1 dn Suc.prems by simp
  from Suc.hyps(1) [OF d1 [symmetric] this, of ?w1]
  have "entry_loop st (d - 1 + 1) ?w1 =
        Inr (fire st (map (\<lambda>k. (down_path w k, HSM_ON_ENTRY)) (rev [0..<Suc n])) ?w1)"
    by (simp only: d1 down_path_call [OF assms(1)])
  then show ?case
    unfolding step by (simp add: dn call_handler_def)
qed

lemma entry_loop_any:
  assumes "unat d < 16"
  shows "\<exists>acts. entry_loop st (d + 1) w = Inr (fire st acts w) \<and>
                (\<forall>a \<in> set acts. snd a = HSM_ON_ENTRY)"
  using assms
proof (induction n \<equiv> "unat d" arbitrary: d w)
  case 0
  then have "d = 0" by (simp add: unat_eq_0)
  then have "entry_loop st (d + 1) w = Inr (fire st [(down_path w 0, HSM_ON_ENTRY)] w)"
    by (subst entry_loop.simps) (simp add: call_handler_def)
  then show ?case by (intro exI [of _ "[(down_path w 0, HSM_ON_ENTRY)]"]) simp
next
  case (Suc n)
  then have d0: "d \<noteq> 0" by auto
  have d1: "unat (d - 1) = n" using unat_minus_one [OF d0] Suc.hyps(2) by simp
  have dn: "unat d = Suc n" using Suc.hyps(2) by simp
  let ?a = "(down_path w (unat d), HSM_ON_ENTRY)"
  let ?w1 = "call_handler st (down_path w (unat d)) HSM_ON_ENTRY w"
  have step: "entry_loop st (d + 1) w = entry_loop st (d - 1 + 1) ?w1"
    using d0 Suc.prems by (subst entry_loop.simps) simp
  have "unat (d - 1) < 16" using d1 dn Suc.prems by simp
  from Suc.hyps(1) [OF d1 [symmetric] this, of ?w1] obtain acts where
    a: "entry_loop st (d - 1 + 1) ?w1 = Inr (fire st acts ?w1)"
       "\<forall>a \<in> set acts. snd a = HSM_ON_ENTRY"
    by blast
  have "fire st acts ?w1 = fire st (?a # acts) w" by (simp add: call_handler_def)
  with a step have "entry_loop st (d + 1) w = Inr (fire st (?a # acts) w)" by simp
  with a(2) show ?case by (intro exI [of _ "?a # acts"]) simp
qed

lemma setState_phases:
  assumes ne: "currentState w \<noteq> T"
    and dS: "within_depth st (currentState w)" and dT: "within_depth st T"
  shows "\<exists>up down c' d' nx ne'.
           setState st w T =
             (case (if nx = False
                    then exit_loop st c' 0 (w\<lparr>up_path := up, down_path := down\<rparr>)
                    else Inr (w\<lparr>up_path := up, down_path := down\<rparr>)) of
                Inl err \<Rightarrow> Inl err
              | Inr w3 \<Rightarrow>
             (case (if ne' = False then entry_loop st (d' + 1) w3 else Inr w3) of
                Inl err \<Rightarrow> Inl err
              | Inr w4 \<Rightarrow> Inr (sendEvent (w4\<lparr>currentState := T\<rparr>) HSM_INITIAL))) \<and>
           up 0 = currentState w \<and>
           (nx \<longleftrightarrow> currentState w \<in> set (ancestors st T)) \<and>
           (ne' \<longleftrightarrow> T \<in> set (ancestors st (currentState w))) \<and>
           unat c' < 16 \<and>
           (\<not> ne' \<longrightarrow> unat d' < 16 \<and>
              map down (rev [0..<Suc (unat d')]) = entry_chain st (currentState w) T)"
proof -
  let ?S = "currentState w"
  let ?par = "\<lambda>x. parent (st x)"
  let ?U = "ancestors st ?S" and ?D = "ancestors st T"
  obtain up where wu: "walk_path ?par 0 ((up_path w)(0 := ?S)) = Inr (of_nat (length ?U - 1), up)"
    and up: "\<forall>k < length ?U. up k = ?U ! k"
    using walk_path_ancestors [OF dS, of "up_path w"] by blast
  obtain down where wd: "walk_path ?par 0 ((down_path w)(0 := T)) = Inr (of_nat (length ?D - 1), down)"
    and down: "\<forall>k < length ?D. down k = ?D ! k"
    using walk_path_ancestors [OF dT, of "down_path w"] by blast
  define c :: "8 word" where "c = of_nat (length ?U - 1)"
  define d :: "8 word" where "d = of_nat (length ?D - 1)"
  note wu = wu [folded c_def] and wd = wd [folded d_def]
  have lU: "Suc 0 \<le> length ?U" "length ?U \<le> 16"
    and lD: "Suc 0 \<le> length ?D" "length ?D \<le> 16"
    by (rule ancestors_length)+
  have uc: "unat c = length ?U - 1" unfolding c_def using lU by (intro unat_of_nat8) simp
  have ud: "unat d = length ?D - 1" unfolding d_def using lD by (intro unat_of_nat8) simp
  have ne0: "?U ! 0 \<noteq> ?D ! 0" using ne by (simp add: ancestors_hd)
  have "\<exists>c' d' nx ne. prune up down c d = (c', d', nx, ne) \<and>
           (nx \<longleftrightarrow> ?U ! 0 \<in> set ?D) \<and> (ne \<longleftrightarrow> ?D ! 0 \<in> set ?U) \<and> unat c' \<le> unat c \<and>
           (\<not> ne \<longrightarrow> unat d' < length ?D \<and>
                      take (Suc (unat d')) ?D = takeWhile (\<lambda>x. x \<notin> set ?U) ?D)"
  proof (rule prune_spec [OF climbs_ancestors [OF dS] climbs_ancestors [OF dT] up down ne0])
    show "unat c < length ?U" using uc lU by simp
    show "unat d < length ?D" using ud lD by simp
    show "length ?U - unat c = length ?D - unat d" using uc ud lU lD by simp
    show "\<forall>k. 0 < k \<and> unat c + k < length ?U \<longrightarrow> ?U ! (unat c + k) = ?D ! (unat d + k)"
      using uc lU by auto
  qed
  then obtain c' d' nx ne' where pr: "prune up down c d = (c', d', nx, ne')"
    and nx: "nx \<longleftrightarrow> ?S \<in> set ?D" and ne': "ne' \<longleftrightarrow> T \<in> set ?U"
    and c': "unat c' \<le> unat c"
    and d': "\<not> ne' \<longrightarrow> unat d' < length ?D \<and>
                      take (Suc (unat d')) ?D = takeWhile (\<lambda>x. x \<notin> set ?U) ?D"
    unfolding ancestors_hd by blast
  have c16: "unat c' < 16" using c' uc lU by simp
  have up0: "up 0 = ?S"
  proof -
    have "0 < length ?U" using lU(1) by (simp only: Suc_le_eq)
    with up have "up 0 = ?U ! 0" by blast
    then show ?thesis by (simp add: ancestors_hd)
  qed
  have en: "unat d' < 16 \<and> map down (rev [0..<Suc (unat d')]) = entry_chain st ?S T" if "\<not> ne'"
  proof -
    from that d' have dl: "unat d' < length ?D"
      and tk: "take (Suc (unat d')) ?D = takeWhile (\<lambda>x. x \<notin> set ?U) ?D" by simp_all
    have d16: "unat d' < 16" using dl lD by simp
    have "map down [0..<Suc (unat d')] = map (\<lambda>k. ?D ! k) [0..<Suc (unat d')]"
      using dl down by (intro map_cong) auto
    also have "\<dots> = take (Suc (unat d')) ?D"
      using dl by (intro map_nth_take) simp
    finally have m: "map down [0..<Suc (unat d')] = takeWhile (\<lambda>x. x \<notin> set ?U) ?D"
      using tk by simp
    have "map down (rev [0..<Suc (unat d')]) = rev (map down [0..<Suc (unat d')])"
      by (simp only: rev_map)
    also have "\<dots> = entry_chain st ?S T" unfolding m entry_chain_def ..
    finally show ?thesis using d16 by simp
  qed
  have "setState st w T =
             (case (if nx = False
                    then exit_loop st c' 0 (w\<lparr>up_path := up, down_path := down\<rparr>)
                    else Inr (w\<lparr>up_path := up, down_path := down\<rparr>)) of
                Inl err \<Rightarrow> Inl err
              | Inr w3 \<Rightarrow>
             (case (if ne' = False then entry_loop st (d' + 1) w3 else Inr w3) of
                Inl err \<Rightarrow> Inl err
              | Inr w4 \<Rightarrow> Inr (sendEvent (w4\<lparr>currentState := T\<rparr>) HSM_INITIAL)))"
    using ne unfolding setState_def
    by (simp only: if_False wu wd sum.case prod.case pr)
  with up0 nx ne' c16 en show ?thesis by blast
qed

lemma down_path_fire:
  assumes "down_path_kept st" "\<forall>a \<in> set acts. snd a = HSM_ON_EXIT \<or> snd a = HSM_ON_ENTRY"
  shows "down_path (fire st acts w) = down_path w"
  using assms(2)
proof (induction acts arbitrary: w)
  case Nil
  then show ?case by simp
next
  case (Cons a as)
  obtain s ev where a: "a = (s, ev)" by (cases a)
  with Cons.prems have "ev = HSM_ON_EXIT \<or> ev = HSM_ON_ENTRY" by simp
  then have "down_path (handler (st s) ev (w\<lparr>trace := trace w @ [(s, ev, currentState w)]\<rparr>)) =
             down_path w"
    using assms(1) by (auto simp: down_path_kept_def)
  with Cons a show ?case by simp
qed

lemma eventQueue_fire:
  assumes "queue_kept st" "\<forall>a \<in> set acts. snd a = HSM_ON_EXIT \<or> snd a = HSM_ON_ENTRY"
  shows "eventQueue (fire st acts w) = eventQueue w"
  using assms(2)
proof (induction acts arbitrary: w)
  case Nil
  then show ?case by simp
next
  case (Cons a as)
  obtain s ev where a: "a = (s, ev)" by (cases a)
  with Cons.prems have "ev = HSM_ON_EXIT \<or> ev = HSM_ON_ENTRY" by simp
  then have "eventQueue (handler (st s) ev (w\<lparr>trace := trace w @ [(s, ev, currentState w)]\<rparr>)) =
             eventQueue w"
    using assms(1) by (auto simp: queue_kept_def)
  with Cons a show ?case by simp
qed

lemma fire_log:
  assumes "log_kept st" "\<forall>a \<in> set acts. snd a = HSM_ON_EXIT \<or> snd a = HSM_ON_ENTRY"
  shows "\<exists>zs. trace (fire st acts w) = trace w @ zs \<and>
              map (\<lambda>x. (fst x, fst (snd x))) zs = acts"
  using assms(2)
proof (induction acts arbitrary: w)
  case Nil
  then show ?case by simp
next
  case (Cons a as)
  obtain s ev where a: "a = (s, ev)" by (cases a)
  let ?w1 = "handler (st s) ev (w\<lparr>trace := trace w @ [(s, ev, currentState w)]\<rparr>)"
  from Cons.prems a have "ev = HSM_ON_EXIT \<or> ev = HSM_ON_ENTRY" by simp
  then have t1: "trace ?w1 = trace w @ [(s, ev, currentState w)]"
    using assms(1) by (auto simp: log_kept_def)
  from Cons.IH [of ?w1] Cons.prems obtain zs where "trace (fire st as ?w1) = trace ?w1 @ zs"
    "map (\<lambda>x. (fst x, fst (snd x))) zs = as"
    by auto
  then show ?case
    by (intro exI [of _ "(s, ev, currentState w) # zs"]) (simp add: t1 a)
qed

lemma fired_proj:
  "fired ev zs = map fst (filter (\<lambda>a. snd a = ev) (map (\<lambda>x. (fst x, fst (snd x))) zs))"
  by (induction zs) (simp_all add: fired_def)

lemma fired_entries:
  assumes "\<forall>x \<in> set xs. snd x = HSM_ON_EXIT"
  shows "map fst (filter (\<lambda>a. snd a = HSM_ON_ENTRY) (xs @ map (\<lambda>s. (s, HSM_ON_ENTRY)) es)) = es"
proof -
  have "filter (\<lambda>a. snd a = HSM_ON_ENTRY) xs = []"
    using assms by (auto simp: filter_empty_conv ev_distinct)
  then show ?thesis by (simp add: filter_map comp_def)
qed

lemma setState_fire:
  assumes pk: "down_path_kept st" and ne: "currentState w \<noteq> T"
    and dS: "within_depth st (currentState w)" and dT: "within_depth st T"
  shows "\<exists>up down. setState st w T =
           Inr (sendEvent
                 ((fire st
                     ((if currentState w \<in> set (ancestors st T) then []
                       else [(currentState w, HSM_ON_EXIT)]) @
                      map (\<lambda>s. (s, HSM_ON_ENTRY)) (entry_chain st (currentState w) T))
                     (w\<lparr>up_path := up, down_path := down\<rparr>))\<lparr>currentState := T\<rparr>)
                 HSM_INITIAL)"
proof -
  let ?S = "currentState w"
  from setState_phases [OF ne dS dT] obtain up down c' d' nx ne' where
    eq: "setState st w T =
             (case (if nx = False
                    then exit_loop st c' 0 (w\<lparr>up_path := up, down_path := down\<rparr>)
                    else Inr (w\<lparr>up_path := up, down_path := down\<rparr>)) of
                Inl err \<Rightarrow> Inl err
              | Inr w3 \<Rightarrow>
             (case (if ne' = False then entry_loop st (d' + 1) w3 else Inr w3) of
                Inl err \<Rightarrow> Inl err
              | Inr w4 \<Rightarrow> Inr (sendEvent (w4\<lparr>currentState := T\<rparr>) HSM_INITIAL)))"
    and up0: "up 0 = ?S"
    and nx: "nx \<longleftrightarrow> ?S \<in> set (ancestors st T)"
    and ne': "ne' \<longleftrightarrow> T \<in> set (ancestors st ?S)"
    and c16: "unat c' < 16"
    and en: "\<not> ne' \<longrightarrow> unat d' < 16 \<and> map down (rev [0..<Suc (unat d')]) = entry_chain st ?S T"
    by blast
  let ?w2 = "w\<lparr>up_path := up, down_path := down\<rparr>"
  let ?xs = "if ?S \<in> set (ancestors st T) then [] else [(?S, HSM_ON_EXIT)]"
  let ?es = "map (\<lambda>s. (s, HSM_ON_ENTRY)) (entry_chain st ?S T)"
  let ?w3 = "fire st ?xs ?w2"
  have exit_phase: "(if nx = False then exit_loop st c' 0 ?w2 else Inr ?w2) = Inr ?w3"
    using nx by (simp add: exit_loop_any [OF c16] up0)
  have dp: "down_path ?w3 = down"
    using down_path_fire [OF pk, of ?xs ?w2] by simp
  have entry_phase: "(if ne' = False then entry_loop st (d' + 1) ?w3 else Inr ?w3) =
                     Inr (fire st ?es ?w3)"
  proof (cases ne')
    case True
    then have "entry_chain st ?S T = []" using ne' by (simp add: entry_chain_Nil)
    with True show ?thesis by simp
  next
    case False
    with en have d16: "unat d' < 16"
      and m: "map down (rev [0..<Suc (unat d')]) = entry_chain st ?S T" by simp_all
    have "map (\<lambda>k. (down k, HSM_ON_ENTRY)) (rev [0..<Suc (unat d')]) =
          map (\<lambda>s. (s, HSM_ON_ENTRY)) (map down (rev [0..<Suc (unat d')]))"
      by (simp only: map_map comp_def)
    then have "map (\<lambda>k. (down k, HSM_ON_ENTRY)) (rev [0..<Suc (unat d')]) = ?es"
      by (simp only: m)
    with False show ?thesis
      by (simp only: entry_loop_kept [OF pk d16] dp if_True simp_thms)
  qed
  have "setState st w T = Inr (sendEvent ((fire st ?es ?w3)\<lparr>currentState := T\<rparr>) HSM_INITIAL)"
    unfolding eq by (simp only: exit_phase entry_phase sum.case)
  then have "setState st w T =
      Inr (sendEvent ((fire st (?xs @ ?es) ?w2)\<lparr>currentState := T\<rparr>) HSM_INITIAL)"
    by (simp only: fire_append)
  then show ?thesis by blast
qed

lemma setState_any:
  assumes ne: "currentState w \<noteq> T"
    and dS: "within_depth st (currentState w)" and dT: "within_depth st T"
  shows "\<exists>up down acts. setState st w T =
           Inr (sendEvent ((fire st acts (w\<lparr>up_path := up, down_path := down\<rparr>))
                             \<lparr>currentState := T\<rparr>) HSM_INITIAL) \<and>
           (\<forall>a \<in> set acts. snd a = HSM_ON_EXIT \<or> snd a = HSM_ON_ENTRY)"
proof -
  let ?S = "currentState w"
  from setState_phases [OF ne dS dT] obtain up down c' d' nx ne' where
    eq: "setState st w T =
             (case (if nx = False
                    then exit_loop st c' 0 (w\<lparr>up_path := up, down_path := down\<rparr>)
                    else Inr (w\<lparr>up_path := up, down_path := down\<rparr>)) of
                Inl err \<Rightarrow> Inl err
              | Inr w3 \<Rightarrow>
             (case (if ne' = False then entry_loop st (d' + 1) w3 else Inr w3) of
                Inl err \<Rightarrow> Inl err
              | Inr w4 \<Rightarrow> Inr (sendEvent (w4\<lparr>currentState := T\<rparr>) HSM_INITIAL)))"
    and c16: "unat c' < 16"
    and en: "\<not> ne' \<longrightarrow> unat d' < 16 \<and> map down (rev [0..<Suc (unat d')]) = entry_chain st ?S T"
    by blast
  let ?w2 = "w\<lparr>up_path := up, down_path := down\<rparr>"
  obtain xs where exit_phase: "(if nx = False then exit_loop st c' 0 ?w2 else Inr ?w2) =
      Inr (fire st xs ?w2)" and xs: "\<forall>a \<in> set xs. snd a = HSM_ON_EXIT"
  proof (cases nx)
    case True
    then have "(if nx = False then exit_loop st c' 0 ?w2 else Inr ?w2) = Inr (fire st [] ?w2)"
      by simp
    then show ?thesis using that [of "[]"] by simp
  next
    case False
    then have "(if nx = False then exit_loop st c' 0 ?w2 else Inr ?w2) =
        Inr (fire st [(up_path ?w2 0, HSM_ON_EXIT)] ?w2)"
      by (simp only: exit_loop_any [OF c16] simp_thms if_True)
    then show ?thesis using that [of "[(up_path ?w2 0, HSM_ON_EXIT)]"] by simp
  qed
  let ?w3 = "fire st xs ?w2"
  obtain es where entry_phase: "(if ne' = False then entry_loop st (d' + 1) ?w3 else Inr ?w3) =
      Inr (fire st es ?w3)" and es: "\<forall>a \<in> set es. snd a = HSM_ON_ENTRY"
  proof (cases ne')
    case True
    then have "(if ne' = False then entry_loop st (d' + 1) ?w3 else Inr ?w3) = Inr (fire st [] ?w3)"
      by simp
    then show ?thesis using that [of "[]"] by simp
  next
    case False
    with en have d16: "unat d' < 16" by simp
    from entry_loop_any [OF d16, of st ?w3] obtain acts where
      "entry_loop st (d' + 1) ?w3 = Inr (fire st acts ?w3)" "\<forall>a \<in> set acts. snd a = HSM_ON_ENTRY"
      by blast
    with False show ?thesis using that [of acts] by simp
  qed
  have "setState st w T = Inr (sendEvent ((fire st es ?w3)\<lparr>currentState := T\<rparr>) HSM_INITIAL)"
    unfolding eq by (simp only: exit_phase entry_phase sum.case)
  then have "setState st w T =
      Inr (sendEvent ((fire st (xs @ es) ?w2)\<lparr>currentState := T\<rparr>) HSM_INITIAL)"
    by (simp only: fire_append)
  moreover have "\<forall>a \<in> set (xs @ es). snd a = HSM_ON_EXIT \<or> snd a = HSM_ON_ENTRY"
    using xs es by auto
  ultimately show ?thesis by blast
qed

lemma fired_calls: "fired ev tr = map fst (filter (\<lambda>a. snd a = ev) (calls tr))"
  unfolding calls_def by (rule fired_proj)

lemma fire_calls:
  assumes "log_kept st" "\<forall>a \<in> set acts. snd a = HSM_ON_EXIT \<or> snd a = HSM_ON_ENTRY"
  shows "take (length (trace w)) (trace (fire st acts w)) = trace w"
    and "calls (drop (length (trace w)) (trace (fire st acts w))) = acts"
  using fire_log [OF assms, of w] by (auto simp: calls_def)

lemma sendEvent_appends:
  assumes "\<not> full (eventQueue x)"
  shows "fst (putEvent (eventQueue x) e) = QUEUE_OK"
    and "queue_inv (eventQueue x) \<Longrightarrow>
         contents (eventQueue (sendEvent x e)) = contents (eventQueue x) @ [e]"
  using assms contents_put [of "eventQueue x" e]
  by (simp_all add: putEvent_fields sendEvent_fields)

lemma down_path_kept_posting: "down_path_kept posting_states"
  by (simp add: down_path_kept_def posting_states_def sendEvent_fields)

lemma log_kept_posting: "log_kept posting_states"
  by (simp add: log_kept_def posting_states_def sendEvent_fields)

lemma queue_kept_demo: "queue_kept demo_states"
  by (simp add: queue_kept_def demo_states_def)

subsection \<open>The dispatch loop\<close>

lemma idle_demo: "idle_handlers demo_states"
  by (simp add: idle_handlers_def demo_states_def)

lemma processHSM_returns_empty:
  assumes "processHSM st ev w = Some w'"
  shows "empty_q (eventQueue w')"
proof (rule processHSM.raw_induct
    [where P = "\<lambda>st ev w w'. empty_q (eventQueue w')", OF _ assms])
  fix f :: "('a \<Rightarrow> 'a state_t) \<Rightarrow> event_t \<Rightarrow> 'a sys \<Rightarrow> 'a sys option"
    and st ev w w'
  assume IH: "\<And>st ev w y. f st ev w = Some y \<Longrightarrow> empty_q (eventQueue y)"
    and eq: "(case getEvent (eventQueue w) ev of
        (r, currentEvent', q') \<Rightarrow>
          if r \<noteq> QUEUE_EMPTY
          then f st currentEvent'
                 (call_handler st (currentState (w\<lparr>eventQueue := q'\<rparr>)) currentEvent'
                    (w\<lparr>eventQueue := q'\<rparr>))
          else Some (w\<lparr>eventQueue := q'\<rparr>)) = Some w'"
  show "empty_q (eventQueue w')"
  proof (cases "empty_q (eventQueue w)")
    case True
    with eq show ?thesis by (auto simp: getEvent_empty)
  next
    case False
    have "fst (getEvent (eventQueue w) ev) = QUEUE_OK"
      by (rule getEvent_fields(1) [OF False])
    with eq obtain e x where "f st e x = Some w'"
      by (auto simp: case_prod_beta)
    then show ?thesis by (rule IH)
  qed
qed

lemma processHSM_step:
  assumes "\<not> empty_q (eventQueue w)"
  shows "processHSM st ev w =
         processHSM st (queue (eventQueue w) (unat (tail (eventQueue w))))
           (call_handler st (currentState w) (queue (eventQueue w) (unat (tail (eventQueue w))))
              (w\<lparr>eventQueue := snd (snd (getEvent (eventQueue w) ev))\<rparr>))"
  using getEvent_fields(1,2) [OF assms, of ev]
  by (subst processHSM.simps) (simp add: case_prod_beta)

lemma processHSM_stop:
  assumes "empty_q (eventQueue w)"
  shows "processHSM st ev w = Some w"
  using assms by (subst processHSM.simps) (simp add: getEvent_empty)

lemma call_idle:
  "idle_handlers st \<Longrightarrow> call_handler st s ev w = w\<lparr>trace := trace w @ [(s, ev, currentState w)]\<rparr>"
  by (simp add: call_handler_def idle_handlers_def)

lemma processHSM_idle:
  assumes "idle_handlers st"
  shows "queue_inv (eventQueue w) \<Longrightarrow>
         \<exists>w'. processHSM st ev w = Some w' \<and>
           trace w' = trace w @ map (\<lambda>e. (currentState w, e, currentState w)) (contents (eventQueue w)) \<and>
           currentState w' = currentState w \<and> empty_q (eventQueue w')"
proof (induction n \<equiv> "count (eventQueue w)" arbitrary: w ev)
  case 0
  then have e: "empty_q (eventQueue w)" using count_bounds(3) [of "eventQueue w"] by simp
  moreover have "contents (eventQueue w) = []"
    using 0 length_contents [of "eventQueue w"] by simp
  ultimately show ?case by (simp add: processHSM_stop)
next
  case (Suc n)
  let ?q = "eventQueue w"
  let ?e = "queue ?q (unat (tail ?q))"
  let ?q' = "snd (snd (getEvent ?q ev))"
  have ne: "\<not> empty_q ?q" using Suc count_bounds(3) [of ?q] by simp
  let ?w1 = "call_handler st (currentState w) ?e (w\<lparr>eventQueue := ?q'\<rparr>)"
  have w1: "?w1 = w\<lparr>eventQueue := ?q', trace := trace w @ [(currentState w, ?e, currentState w)]\<rparr>"
    by (simp add: call_idle [OF assms])
  have inv': "queue_inv (eventQueue ?w1)" using queue_inv_get [OF Suc.prems, of ev] by (simp add: w1)
  have cnt: "n = count (eventQueue ?w1)"
    using count_get [OF Suc.prems ne, of ev] Suc.hyps(2) by (simp add: w1)
  have cs: "contents ?q = ?e # contents (eventQueue ?w1)"
    using contents_get [OF Suc.prems ne, of ev] by (simp add: w1)
  from Suc.hyps(1) [OF cnt inv', of ?e] obtain w' where
    r: "processHSM st ?e ?w1 = Some w'"
       "trace w' = trace ?w1 @ map (\<lambda>e. (currentState ?w1, e, currentState ?w1)) (contents (eventQueue ?w1))"
       "currentState w' = currentState ?w1" "empty_q (eventQueue w')"
    by blast
  have "processHSM st ev w = Some w'" using r(1) by (simp add: processHSM_step [OF ne])
  moreover have "trace w' = trace w @ map (\<lambda>e. (currentState w, e, currentState w)) (contents ?q)"
    using r(2) by (simp add: cs) (simp add: w1)
  moreover have "currentState w' = currentState w" using r(3) by (simp add: w1)
  ultimately show ?case using r(4) by blast
qed

subsection \<open>Claims about the queue\<close>

text \<open>
  C6. For a queue of capacity at least 1, initialised by \<open>initEventQueue\<close>, any sequence
  of pushes and pops returns exactly what a bounded FIFO list returns: the events popped
  are, in order, a prefix of the events whose push succeeded, also when the indices wrap
  around. For capacity 4: pushing \<open>e1, e2, e3, e4\<close> makes the queue full, and after
  popping \<open>e1\<close> and pushing \<open>e5\<close> the pops return \<open>e2, e3, e4, e5\<close>.
\<close>

theorem queue_fifo_order:
  assumes "1 \<le> unat len"
  shows "fst (run_ops (initEventQueue eq buf len) ops) = fst (fifo_ops (unat len) [] ops) \<and>
         prefix (popped (fst (run_ops (initEventQueue eq buf len) ops)))
                (accepted ops (fst (run_ops (initEventQueue eq buf len) ops))) \<and>
         full (snd (run_ops (initEventQueue eq buf 4) [Push e1, Push e2, Push e3, Push e4])) \<and>
         fst (run_ops (initEventQueue eq buf 4)
               [Push e1, Push e2, Push e3, Push e4, Pop, Push e5, Pop, Pop, Pop, Pop]) =
           [Pushed QUEUE_OK, Pushed QUEUE_OK, Pushed QUEUE_OK, Pushed QUEUE_OK,
            Popped QUEUE_OK (Some e1), Pushed QUEUE_OK, Popped QUEUE_OK (Some e2),
            Popped QUEUE_OK (Some e3), Popped QUEUE_OK (Some e4), Popped QUEUE_OK (Some e5)]"
proof -
  have four: "1 \<le> unat (4 :: 8 word)" by simp
  have a: "fst (run_ops (initEventQueue eq buf len) ops) = fst (fifo_ops (unat len) [] ops)"
    by (rule run_ops_init(1) [OF assms])
  have b: "prefix (popped (fst (run_ops (initEventQueue eq buf len) ops)))
                (accepted ops (fst (run_ops (initEventQueue eq buf len) ops)))"
    unfolding a using fifo_ops_order [of "unat len" "[]" ops] by simp
  have c: "full (snd (run_ops (initEventQueue eq buf 4) [Push e1, Push e2, Push e3, Push e4]))"
    unfolding run_ops_init(2) [OF four] by simp
  have d: "fst (run_ops (initEventQueue eq buf 4)
               [Push e1, Push e2, Push e3, Push e4, Pop, Push e5, Pop, Pop, Pop, Pop]) =
           [Pushed QUEUE_OK, Pushed QUEUE_OK, Pushed QUEUE_OK, Pushed QUEUE_OK,
            Popped QUEUE_OK (Some e1), Pushed QUEUE_OK, Popped QUEUE_OK (Some e2),
            Popped QUEUE_OK (Some e3), Popped QUEUE_OK (Some e4), Popped QUEUE_OK (Some e5)]"
    unfolding run_ops_init(1) [OF four] by simp
  from a b c d show ?thesis by blast
qed

theorem queue_fifo_order_witness:
  "1 \<le> unat (2 :: 8 word) \<and>
   fst (run_ops (initEventQueue \<lparr>queue = (\<lambda>_. 0), length_q = 0, head = 0, tail = 0,
                                  full = False, empty_q = False\<rparr> (\<lambda>_. 0) 2)
          [Push 10, Push 11, Pop, Push 12, Pop, Pop, Pop]) =
     [Pushed QUEUE_OK, Pushed QUEUE_OK, Popped QUEUE_OK (Some 10), Pushed QUEUE_OK,
      Popped QUEUE_OK (Some 11), Popped QUEUE_OK (Some 12), Popped QUEUE_EMPTY None]"
proof -
  have h: "1 \<le> unat (2 :: 8 word)" by simp
  show ?thesis
    using h queue_fifo_order [OF h, of "\<lparr>queue = (\<lambda>_. 0), length_q = 0, head = 0, tail = 0,
                                  full = False, empty_q = False\<rparr>" "\<lambda>_. 0"
        "[Push 10, Push 11, Pop, Push 12, Pop, Pop, Pop]"]
    by simp
qed

text \<open>
  C7. A push on a queue whose \<open>full\<close> flag is set returns \<open>QUEUE_FULL\<close> and leaves the
  whole structure as it was. After initialisation with capacity \<open>len\<close>, \<open>len\<close> pushes
  all succeed, the queue is not full before the last of them and is full after it; one
  more push is rejected, and after one pop exactly one more push succeeds.
\<close>

theorem putEvent_full_rejects:
  assumes "1 \<le> unat len" and "length es = unat len"
  shows "(full q \<longrightarrow> putEvent q e = (QUEUE_FULL, q)) \<and>
         fst (run_ops (initEventQueue eq buf len) (map Push es)) =
           replicate (unat len) (Pushed QUEUE_OK) \<and>
         (\<forall>k < unat len. \<not> full (snd (run_ops (initEventQueue eq buf len) (map Push (take k es))))) \<and>
         full (snd (run_ops (initEventQueue eq buf len) (map Push es))) \<and>
         fst (run_ops (initEventQueue eq buf len) (map Push es @ [Push e, Pop, Push e1, Push e2])) =
           replicate (unat len) (Pushed QUEUE_OK) @
             [Pushed QUEUE_FULL, Popped QUEUE_OK (Some (hd es)), Pushed QUEUE_OK, Pushed QUEUE_FULL]"
proof -
  let ?C = "unat len"
  have ne: "es \<noteq> []" using assms by auto
  have fill: "fifo_ops ?C [] (map Push xs @ ops) =
      (replicate (length xs) (Pushed QUEUE_OK) @ fst (fifo_ops ?C xs ops), snd (fifo_ops ?C xs ops))"
    if "length xs \<le> ?C" for xs ops
    using fifo_ops_fill [of "[]" xs ?C ops] that by simp
  have a: "full q \<longrightarrow> putEvent q e = (QUEUE_FULL, q)"
    by (simp add: putEvent_full)
  have b: "fst (run_ops (initEventQueue eq buf len) (map Push es)) =
           replicate ?C (Pushed QUEUE_OK)"
    unfolding run_ops_init(1) [OF assms(1)]
    using fill [of es "[]"] assms(2) by simp
  have c: "\<not> full (snd (run_ops (initEventQueue eq buf len) (map Push (take k es))))"
    if "k < ?C" for k
    unfolding run_ops_init(2) [OF assms(1)]
    using fill [of "take k es" "[]"] assms(2) that by simp
  have d: "full (snd (run_ops (initEventQueue eq buf len) (map Push es)))"
    unfolding run_ops_init(2) [OF assms(1)]
    using fill [of es "[]"] assms(2) by simp
  obtain x xs where es: "es = x # xs" using ne by (cases es) auto
  have xs: "Suc (length xs) = ?C" using assms(2) es by simp
  have tailops: "fst (fifo_ops ?C es [Push e, Pop, Push e1, Push e2]) =
     [Pushed QUEUE_FULL, Popped QUEUE_OK (Some (hd es)), Pushed QUEUE_OK, Pushed QUEUE_FULL]"
    using xs by (simp add: es)
  have e: "fst (run_ops (initEventQueue eq buf len) (map Push es @ [Push e, Pop, Push e1, Push e2])) =
           replicate ?C (Pushed QUEUE_OK) @
             [Pushed QUEUE_FULL, Popped QUEUE_OK (Some (hd es)), Pushed QUEUE_OK, Pushed QUEUE_FULL]"
  proof -
    have le: "length es \<le> ?C" using assms(2) by simp
    show ?thesis
      unfolding run_ops_init(1) [OF assms(1)] fill [OF le] fst_conv tailops assms(2) ..
  qed
  from a b c d e show ?thesis by blast
qed

theorem putEvent_full_rejects_witness:
  "1 \<le> unat (2 :: 8 word) \<and> length [5, 6 :: event_t] = unat (2 :: 8 word) \<and>
   fst (run_ops (initEventQueue \<lparr>queue = (\<lambda>_. 0), length_q = 0, head = 0, tail = 0,
                                  full = False, empty_q = False\<rparr> (\<lambda>_. 0) 2)
          (map Push [5, 6] @ [Push 7, Pop, Push 8, Push 9])) =
     [Pushed QUEUE_OK, Pushed QUEUE_OK, Pushed QUEUE_FULL, Popped QUEUE_OK (Some 5),
      Pushed QUEUE_OK, Pushed QUEUE_FULL]"
proof -
  have h1: "1 \<le> unat (2 :: 8 word)" by simp
  have h2: "length [5, 6 :: event_t] = unat (2 :: 8 word)" by simp
  have r: "replicate (unat (2 :: 8 word)) (Pushed QUEUE_OK) = [Pushed QUEUE_OK, Pushed QUEUE_OK]"
  proof -
    have "unat (2 :: 8 word) = 2" by simp
    then show ?thesis by (simp add: numeral_2_eq_2)
  qed
  show ?thesis
    using h1 h2 putEvent_full_rejects [OF h1 h2, where eq = "\<lparr>queue = (\<lambda>_. 0), length_q = 0,
        head = 0, tail = 0, full = False, empty_q = False\<rparr>" and buf = "\<lambda>_. 0" and e = 7
        and ?e1.0 = 8 and ?e2.0 = 9]
    unfolding r by simp
qed

text \<open>
  C8. \<open>full\<close> and \<open>empty\<close> are not both set after \<open>initEventQueue\<close>; a push or a pop,
  successful or not, keeps it so; and in every state reached from initialisation by
  pushes and pops, when \<open>head = tail\<close> exactly one of the two flags is set.
\<close>

theorem queue_flags_invariant:
  "\<not> (full (initEventQueue eq buf len) \<and> empty_q (initEventQueue eq buf len)) \<and>
   (\<not> (full q \<and> empty_q q) \<longrightarrow>
      \<not> (full (snd (putEvent q e)) \<and> empty_q (snd (putEvent q e))) \<and>
      \<not> (full (snd (snd (getEvent q ev))) \<and> empty_q (snd (snd (getEvent q ev))))) \<and>
   \<not> (full (snd (run_ops (initEventQueue eq buf len) ops)) \<and>
      empty_q (snd (run_ops (initEventQueue eq buf len) ops))) \<and>
   (head (snd (run_ops (initEventQueue eq buf len) ops)) =
    tail (snd (run_ops (initEventQueue eq buf len) ops)) \<longrightarrow>
      full (snd (run_ops (initEventQueue eq buf len) ops)) \<noteq>
      empty_q (snd (run_ops (initEventQueue eq buf len) ops)))"
proof -
  have i: "flags_inv (initEventQueue eq buf len)"
    by (simp add: flags_inv_def initEventQueue_def)
  have r: "flags_inv (snd (run_ops (initEventQueue eq buf len) ops))"
    by (rule flags_inv_run [OF i])
  from i r flags_put [of q e] flags_get [of q ev] show ?thesis
    unfolding flags_inv_def by blast
qed

theorem queue_flags_invariant_witness:
  "\<not> (full \<lparr>queue = (\<lambda>_. 0), length_q = 1, head = 0, tail = 0, full = True, empty_q = False\<rparr> \<and>
      empty_q \<lparr>queue = (\<lambda>_. 0), length_q = 1, head = 0, tail = 0, full = True, empty_q = False\<rparr>) \<and>
   \<not> (full (snd (snd (getEvent \<lparr>queue = (\<lambda>_. 0), length_q = 1, head = 0, tail = 0,
                                 full = True, empty_q = False\<rparr> 0))) \<and>
      empty_q (snd (snd (getEvent \<lparr>queue = (\<lambda>_. 0), length_q = 1, head = 0, tail = 0,
                                 full = True, empty_q = False\<rparr> 0)))) \<and>
   head (snd (run_ops (initEventQueue \<lparr>queue = (\<lambda>_. 0), length_q = 0, head = 5, tail = 7,
                                 full = True, empty_q = True\<rparr> (\<lambda>_. 0) 1) [Push 3])) =
   tail (snd (run_ops (initEventQueue \<lparr>queue = (\<lambda>_. 0), length_q = 0, head = 5, tail = 7,
                                 full = True, empty_q = True\<rparr> (\<lambda>_. 0) 1) [Push 3])) \<and>
   full (snd (run_ops (initEventQueue \<lparr>queue = (\<lambda>_. 0), length_q = 0, head = 5, tail = 7,
                                 full = True, empty_q = True\<rparr> (\<lambda>_. 0) 1) [Push 3])) \<noteq>
   empty_q (snd (run_ops (initEventQueue \<lparr>queue = (\<lambda>_. 0), length_q = 0, head = 5, tail = 7,
                                 full = True, empty_q = True\<rparr> (\<lambda>_. 0) 1) [Push 3]))"
  using queue_flags_invariant [of "\<lparr>queue = (\<lambda>_. 0), length_q = 0, head = 5, tail = 7,
                                 full = True, empty_q = True\<rparr>" "\<lambda>_. 0" 1
      "\<lparr>queue = (\<lambda>_. 0), length_q = 1, head = 0, tail = 0, full = True, empty_q = False\<rparr>"
      0 0 "[Push 3]"]
  by (simp add: initEventQueue_def putEvent_def Let_def)

subsection \<open>Claims about the machine\<close>

text \<open>
  C1. The claim asks that a general transition fires \<open>ON_EXIT\<close> on every node of the chain
  of the current state below the least common ancestor. In the hierarchy
  \<open>Root \<rightarrow> A \<rightarrow> A1\<close>, \<open>Root \<rightarrow> B\<close>, the transition from \<open>A1\<close> to \<open>B\<close> has to exit
  \<open>A1\<close> and then \<open>A\<close>; \<open>setState\<close> invokes only the handler of \<open>A1\<close> with \<open>ON_EXIT\<close>
  (and then enters \<open>B\<close>), because the counter of the exit loop is decremented from 0
  to 255 after the first invocation.
\<close>

theorem setState_exit_skips_ancestors:
  "\<not> isl (setState demo_states (demo_sys 2) 4) \<and>
   trace (projr (setState demo_states (demo_sys 2) 4)) =
     [(2, HSM_ON_EXIT, 2), (4, HSM_ON_ENTRY, 2)] \<and>
   exit_chain demo_states 2 4 = [2, 1]"
  by code_simp

text \<open>
  C2 (amended). When the entry and exit actions do not call back into the engine (they
  leave \<^verbatim>\<open>down_path\<close> and the log as they found them), a general transition from the
  current state to \<open>T\<close>, both chains reaching a root within 16 levels, returns normally:
  after its exit actions it fires \<open>ON_ENTRY\<close> exactly on the nodes of the chain of \<open>T\<close>
  below the least common ancestor, once each, outermost first and ending with \<open>T\<close>, then
  sets \<open>currentState\<close> and sends \<open>INITIAL\<close>; no \<open>ON_ENTRY\<close> is fired exactly when \<open>T\<close>
  is an ancestor of the current state.
\<close>

theorem setState_entry_order:
  assumes "down_path_kept st" and "log_kept st" and "currentState w \<noteq> T"
    and "within_depth st (currentState w)" and "within_depth st T"
  shows "\<exists>w' up down xs.
           setState st w T = Inr w' \<and>
           w' = sendEvent
                  ((fire st (xs @ map (\<lambda>s. (s, HSM_ON_ENTRY)) (entry_chain st (currentState w) T))
                      (w\<lparr>up_path := up, down_path := down\<rparr>))\<lparr>currentState := T\<rparr>)
                  HSM_INITIAL \<and>
           (\<forall>x \<in> set xs. snd x = HSM_ON_EXIT) \<and>
           fired HSM_ON_ENTRY (drop (length (trace w)) (trace w')) =
             entry_chain st (currentState w) T \<and>
           take (length (trace w)) (trace w') = trace w \<and>
           distinct (entry_chain st (currentState w) T) \<and>
           (entry_chain st (currentState w) T = [] \<longleftrightarrow> T \<in> set (ancestors st (currentState w)))"
proof -
  let ?S = "currentState w"
  let ?xs = "if ?S \<in> set (ancestors st T) then [] else [(?S, HSM_ON_EXIT)]"
  let ?es = "map (\<lambda>s. (s, HSM_ON_ENTRY)) (entry_chain st ?S T)"
  from setState_fire [OF assms(1,3,4,5)] obtain up down where
    eq: "setState st w T =
           Inr (sendEvent ((fire st (?xs @ ?es) (w\<lparr>up_path := up, down_path := down\<rparr>))
                             \<lparr>currentState := T\<rparr>) HSM_INITIAL)"
    by blast
  let ?w2 = "w\<lparr>up_path := up, down_path := down\<rparr>"
  let ?w' = "sendEvent ((fire st (?xs @ ?es) ?w2)\<lparr>currentState := T\<rparr>) HSM_INITIAL"
  have xs: "\<forall>x \<in> set ?xs. snd x = HSM_ON_EXIT" by simp
  have acts: "\<forall>a \<in> set (?xs @ ?es). snd a = HSM_ON_EXIT \<or> snd a = HSM_ON_ENTRY" by auto
  have tr: "trace ?w' = trace (fire st (?xs @ ?es) ?w2)" by (simp add: sendEvent_fields)
  have t0: "trace ?w2 = trace w" by simp
  have tk: "take (length (trace w)) (trace ?w') = trace w"
    using fire_calls(1) [OF assms(2) acts, of ?w2] by (simp only: tr t0)
  have cl: "calls (drop (length (trace w)) (trace ?w')) = ?xs @ ?es"
    using fire_calls(2) [OF assms(2) acts, of ?w2] by (simp only: tr t0)
  have fr: "fired HSM_ON_ENTRY (drop (length (trace w)) (trace ?w')) = entry_chain st ?S T"
    unfolding fired_calls cl by (rule fired_entries [OF xs])
  from eq xs fr tk entry_chain_distinct [OF assms(5), of ?S] entry_chain_Nil [of st ?S T]
  show ?thesis by blast
qed

theorem setState_entry_order_witness:
  "down_path_kept posting_states \<and> log_kept posting_states \<and> currentState (demo_sys 4) \<noteq> 2 \<and>
   within_depth posting_states (currentState (demo_sys 4)) \<and> within_depth posting_states 2 \<and>
   entry_chain posting_states (currentState (demo_sys 4)) 2 = [1, 2] \<and>
   (\<exists>w'. setState posting_states (demo_sys 4) 2 = Inr w' \<and>
         fired HSM_ON_ENTRY (trace w') = [1, 2]) \<and>
   contents (eventQueue (projr (setState posting_states (demo_sys 4) 2))) = [42, 11, 21, HSM_INITIAL]"
proof -
  have h3: "currentState (demo_sys 4) \<noteq> 2" by (simp add: demo_sys_def)
  have h4: "within_depth posting_states (currentState (demo_sys 4))" by code_simp
  have h5: "within_depth posting_states 2" by code_simp
  have e: "entry_chain posting_states (currentState (demo_sys 4)) 2 = [1, 2]" by code_simp
  have t0: "trace (demo_sys 4) = []" by (simp add: demo_sys_def)
  have q: "contents (eventQueue (projr (setState posting_states (demo_sys 4) 2))) =
           [42, 11, 21, HSM_INITIAL]"
    by code_simp
  from setState_entry_order [OF down_path_kept_posting log_kept_posting h3 h4 h5]
  obtain w' where "setState posting_states (demo_sys 4) 2 = Inr w'"
    "fired HSM_ON_ENTRY (drop (length (trace (demo_sys 4))) (trace w')) =
       entry_chain posting_states (currentState (demo_sys 4)) 2"
    by blast
  then have "\<exists>w'. setState posting_states (demo_sys 4) 2 = Inr w' \<and>
         fired HSM_ON_ENTRY (trace w') = [1, 2]"
    by (simp add: t0 e)
  with down_path_kept_posting log_kept_posting h3 h4 h5 e q show ?thesis by blast
qed

text \<open>
  Without the condition on the actions the statement of C2 fails: when the exit action
  of \<open>A1\<close> requests the transition to \<open>B\<close> during the transition from \<open>A1\<close> to \<open>A2\<close>, the
  nested call overwrites \<^verbatim>\<open>down_path[0]\<close>, and \<open>ON_ENTRY\<close> is fired twice on \<open>B\<close> and
  never on \<open>A2\<close>.
\<close>

theorem setState_entry_order_counterexample:
  "currentState (demo_sys 2) \<noteq> 3 \<and>
   within_depth reentrant_states (currentState (demo_sys 2)) \<and>
   within_depth reentrant_states 3 \<and>
   entry_chain reentrant_states (currentState (demo_sys 2)) 3 = [3] \<and>
   \<not> isl (setState reentrant_states (demo_sys 2) 3) \<and>
   fired HSM_ON_ENTRY (trace (projr (setState reentrant_states (demo_sys 2) 3))) = [4, 4]"
  by code_simp

text \<open>
  C3 (amended). \<open>setState\<close> on the current state \<open>S\<close> fires \<open>ON_EXIT\<close> on \<open>S\<close>, then
  \<open>ON_ENTRY\<close> on \<open>S\<close>, and then sends \<open>INITIAL\<close>, whatever the handlers do; the send
  appends exactly one \<open>INITIAL\<close> event to the queue as the two actions left it, if that
  queue is not full. When the two actions do not call back into the engine (they leave
  the log as they found it), these are the only two handler invocations; when they leave
  the queue as they found it, the queue, if not full, gains exactly that one event.
\<close>

theorem setState_self_transition:
  assumes "currentState w = S"
  shows "setState st w S =
           Inr (sendEvent (fire st [(S, HSM_ON_EXIT), (S, HSM_ON_ENTRY)] w) HSM_INITIAL) \<and>
         (log_kept st \<longrightarrow>
            calls (drop (length (trace w)) (trace (projr (setState st w S)))) =
              [(S, HSM_ON_EXIT), (S, HSM_ON_ENTRY)] \<and>
            take (length (trace w)) (trace (projr (setState st w S))) = trace w) \<and>
         (queue_kept st \<longrightarrow>
            eventQueue (projr (setState st w S)) = snd (putEvent (eventQueue w) HSM_INITIAL) \<and>
            (\<not> full (eventQueue w) \<longrightarrow>
               fst (putEvent (eventQueue w) HSM_INITIAL) = QUEUE_OK) \<and>
            (\<not> full (eventQueue w) \<and> queue_inv (eventQueue w) \<longrightarrow>
               contents (eventQueue (projr (setState st w S))) =
                 contents (eventQueue w) @ [HSM_INITIAL])) \<and>
         (\<not> full (eventQueue x) \<and> queue_inv (eventQueue x) \<longrightarrow>
            contents (eventQueue (sendEvent x HSM_INITIAL)) =
              contents (eventQueue x) @ [HSM_INITIAL])"
proof -
  let ?acts = "[(S, HSM_ON_EXIT), (S, HSM_ON_ENTRY)]"
  have a: "setState st w S = Inr (sendEvent (fire st ?acts w) HSM_INITIAL)"
    using assms by (simp add: setState_def Let_def call_handler_def)
  have acts: "\<forall>a \<in> set ?acts. snd a = HSM_ON_EXIT \<or> snd a = HSM_ON_ENTRY" by simp
  have tr: "trace (projr (setState st w S)) = trace (fire st ?acts w)"
    unfolding a by (simp only: sum.sel sendEvent_fields)
  have q: "eventQueue (projr (setState st w S)) =
           snd (putEvent (eventQueue (fire st ?acts w)) HSM_INITIAL)"
    unfolding a by (simp only: sum.sel sendEvent_fields)
  have b: "calls (drop (length (trace w)) (trace (projr (setState st w S)))) = ?acts \<and>
           take (length (trace w)) (trace (projr (setState st w S))) = trace w"
    if "log_kept st"
    unfolding tr using fire_calls [OF that acts, of w] by blast
  have c: "eventQueue (projr (setState st w S)) = snd (putEvent (eventQueue w) HSM_INITIAL) \<and>
            (\<not> full (eventQueue w) \<longrightarrow>
               fst (putEvent (eventQueue w) HSM_INITIAL) = QUEUE_OK) \<and>
            (\<not> full (eventQueue w) \<and> queue_inv (eventQueue w) \<longrightarrow>
               contents (eventQueue (projr (setState st w S))) =
                 contents (eventQueue w) @ [HSM_INITIAL])"
    if "queue_kept st"
  proof -
    have k: "eventQueue (fire st ?acts w) = eventQueue w"
      by (rule eventQueue_fire [OF that acts])
    show ?thesis
      unfolding q k
      using contents_put [of "eventQueue w" HSM_INITIAL]
        putEvent_fields(1) [of "eventQueue w" HSM_INITIAL]
      by blast
  qed
  have d: "contents (eventQueue (sendEvent x HSM_INITIAL)) = contents (eventQueue x) @ [HSM_INITIAL]"
    if "\<not> full (eventQueue x) \<and> queue_inv (eventQueue x)"
    using that sendEvent_appends(2) [of x HSM_INITIAL] by blast
  from a b c d show ?thesis by blast
qed

theorem setState_self_transition_witness:
  "currentState (demo_sys 2) = 2 \<and> log_kept posting_states \<and> queue_kept demo_states \<and>
   \<not> full (eventQueue (demo_sys 2)) \<and> queue_inv (eventQueue (demo_sys 2)) \<and>
   calls (trace (projr (setState posting_states (demo_sys 2) 2))) =
     [(2, HSM_ON_EXIT), (2, HSM_ON_ENTRY)] \<and>
   contents (eventQueue (projr (setState posting_states (demo_sys 2) 2))) = [22, 21, HSM_INITIAL] \<and>
   contents (eventQueue (projr (setState demo_states (demo_sys 2) 2))) = [HSM_INITIAL] \<and>
   contents (eventQueue (sendEvent (demo_sys 2) HSM_INITIAL)) = [HSM_INITIAL]"
proof -
  have h1: "currentState (demo_sys 2) = 2" by (simp add: demo_sys_def)
  have nf: "\<not> full (eventQueue (demo_sys 2))" by (simp add: demo_sys_def)
  have qi: "queue_inv (eventQueue (demo_sys 2))"
    by (simp add: demo_sys_def queue_inv_def capacity_def)
  have c0: "contents (eventQueue (demo_sys 2)) = []"
    by (simp add: demo_sys_def contents_def count_def capacity_def)
  have t0: "trace (demo_sys 2) = []" by (simp add: demo_sys_def)
  note p = setState_self_transition [OF h1, of posting_states "demo_sys 2"]
  note d = setState_self_transition [OF h1, of demo_states "demo_sys 2"]
  have a: "calls (trace (projr (setState posting_states (demo_sys 2) 2))) =
     [(2, HSM_ON_EXIT), (2, HSM_ON_ENTRY)]"
    using p [THEN conjunct2, THEN conjunct1, rule_format, OF log_kept_posting]
    by (simp add: t0)
  have b: "contents (eventQueue (projr (setState posting_states (demo_sys 2) 2))) =
           [22, 21, HSM_INITIAL]"
    by code_simp
  have c: "contents (eventQueue (projr (setState demo_states (demo_sys 2) 2))) = [HSM_INITIAL]"
  proof -
    from d [THEN conjunct2, THEN conjunct2, THEN conjunct1, rule_format, OF queue_kept_demo] nf qi
    have "contents (eventQueue (projr (setState demo_states (demo_sys 2) 2))) =
          contents (eventQueue (demo_sys 2)) @ [HSM_INITIAL]"
      by blast
    then show ?thesis by (simp add: c0)
  qed
  have e: "contents (eventQueue (sendEvent (demo_sys 2) HSM_INITIAL)) = [HSM_INITIAL]"
    using d [THEN conjunct2, THEN conjunct2, THEN conjunct2, rule_format, OF conjI [OF nf qi]]
    by (simp add: c0)
  from h1 log_kept_posting queue_kept_demo nf qi a b c e show ?thesis by blast
qed

text \<open>
  Without the condition on the actions the statement of C3 fails: when the exit action
  of \<open>A1\<close> requests the transition to \<open>B\<close> during the self-transition on \<open>A1\<close>,
  \<open>ON_EXIT\<close> is fired twice on \<open>A1\<close>, \<open>ON_ENTRY\<close> is fired on \<open>B\<close>, two \<open>INITIAL\<close>
  events are enqueued and the machine ends in \<open>B\<close>.
\<close>

theorem setState_self_transition_counterexample:
  "currentState (demo_sys 2) = 2 \<and> \<not> full (eventQueue (demo_sys 2)) \<and>
   \<not> isl (setState reentrant_states (demo_sys 2) 2) \<and>
   calls (trace (projr (setState reentrant_states (demo_sys 2) 2))) =
     [(2, HSM_ON_EXIT), (2, HSM_ON_EXIT), (4, HSM_ON_ENTRY), (2, HSM_ON_ENTRY)] \<and>
   contents (eventQueue (projr (setState reentrant_states (demo_sys 2) 2))) =
     [HSM_INITIAL, HSM_INITIAL] \<and>
   currentState (projr (setState reentrant_states (demo_sys 2) 2)) = 4"
  by code_simp

text \<open>
  C4 (amended). A general transition to \<open>T\<close> in which both ancestor chains reach a root
  within 16 levels returns, whatever the handlers do: it fires exit and entry actions and
  nothing else, then sets \<open>currentState\<close> to \<open>T\<close>, then sends \<open>INITIAL\<close> once, which
  appends it to the queue as the actions left it if that queue is not full. So
  \<open>currentState = T\<close> at the end, it is updated after all exit and entry actions, and the
  engine changes nothing else but the scratch arrays and the log. When the actions leave
  the queue as they found it, the queue, if not full, gains exactly one \<open>INITIAL\<close> event.
\<close>

theorem setState_general_transition:
  assumes "currentState w \<noteq> T"
    and "within_depth st (currentState w)" and "within_depth st T"
  shows "\<exists>w' up down acts.
           setState st w T = Inr w' \<and> currentState w' = T \<and>
           w' = sendEvent ((fire st acts (w\<lparr>up_path := up, down_path := down\<rparr>))
                             \<lparr>currentState := T\<rparr>) HSM_INITIAL \<and>
           (\<forall>a \<in> set acts. snd a = HSM_ON_EXIT \<or> snd a = HSM_ON_ENTRY) \<and>
           (log_kept st \<longrightarrow>
              calls (drop (length (trace w)) (trace w')) = acts \<and>
              take (length (trace w)) (trace w') = trace w) \<and>
           (queue_kept st \<longrightarrow>
              eventQueue w' = snd (putEvent (eventQueue w) HSM_INITIAL) \<and>
              (\<not> full (eventQueue w) \<longrightarrow>
                 fst (putEvent (eventQueue w) HSM_INITIAL) = QUEUE_OK) \<and>
              (\<not> full (eventQueue w) \<and> queue_inv (eventQueue w) \<longrightarrow>
                 contents (eventQueue w') = contents (eventQueue w) @ [HSM_INITIAL])) \<and>
           (\<not> full (eventQueue x) \<and> queue_inv (eventQueue x) \<longrightarrow>
              contents (eventQueue (sendEvent x HSM_INITIAL)) =
                contents (eventQueue x) @ [HSM_INITIAL])"
proof -
  from setState_any [OF assms] obtain up down acts where
    eq: "setState st w T =
           Inr (sendEvent ((fire st acts (w\<lparr>up_path := up, down_path := down\<rparr>))
                             \<lparr>currentState := T\<rparr>) HSM_INITIAL)"
    and acts: "\<forall>a \<in> set acts. snd a = HSM_ON_EXIT \<or> snd a = HSM_ON_ENTRY"
    by blast
  let ?w2 = "w\<lparr>up_path := up, down_path := down\<rparr>"
  let ?w' = "sendEvent ((fire st acts ?w2)\<lparr>currentState := T\<rparr>) HSM_INITIAL"
  have cur: "currentState ?w' = T" by (simp add: sendEvent_fields)
  have tr: "trace ?w' = trace (fire st acts ?w2)" by (simp add: sendEvent_fields)
  have q: "eventQueue ?w' = snd (putEvent (eventQueue (fire st acts ?w2)) HSM_INITIAL)"
    by (simp add: sendEvent_fields)
  have t0: "trace ?w2 = trace w" and q0: "eventQueue ?w2 = eventQueue w" by simp_all
  have b: "calls (drop (length (trace w)) (trace ?w')) = acts \<and>
           take (length (trace w)) (trace ?w') = trace w"
    if "log_kept st"
    using fire_calls [OF that acts, of ?w2] by (simp only: tr t0)
  have c: "eventQueue ?w' = snd (putEvent (eventQueue w) HSM_INITIAL) \<and>
              (\<not> full (eventQueue w) \<longrightarrow>
                 fst (putEvent (eventQueue w) HSM_INITIAL) = QUEUE_OK) \<and>
              (\<not> full (eventQueue w) \<and> queue_inv (eventQueue w) \<longrightarrow>
                 contents (eventQueue ?w') = contents (eventQueue w) @ [HSM_INITIAL])"
    if "queue_kept st"
  proof -
    have k: "eventQueue (fire st acts ?w2) = eventQueue w"
      using eventQueue_fire [OF that acts, of ?w2] by (simp only: q0)
    show ?thesis
      unfolding q k
      using contents_put [of "eventQueue w" HSM_INITIAL]
        putEvent_fields(1) [of "eventQueue w" HSM_INITIAL]
      by blast
  qed
  have d: "contents (eventQueue (sendEvent x HSM_INITIAL)) = contents (eventQueue x) @ [HSM_INITIAL]"
    if "\<not> full (eventQueue x) \<and> queue_inv (eventQueue x)"
    using that sendEvent_appends(2) [of x HSM_INITIAL] by blast
  from eq cur acts b c d show ?thesis by blast
qed

theorem setState_general_transition_witness:
  "currentState (demo_sys 4) \<noteq> 2 \<and>
   within_depth posting_states (currentState (demo_sys 4)) \<and> within_depth posting_states 2 \<and>
   within_depth demo_states (currentState (demo_sys 4)) \<and> within_depth demo_states 2 \<and>
   log_kept posting_states \<and> queue_kept demo_states \<and>
   \<not> full (eventQueue (demo_sys 4)) \<and> queue_inv (eventQueue (demo_sys 4)) \<and>
   (\<exists>w'. setState posting_states (demo_sys 4) 2 = Inr w' \<and> currentState w' = 2 \<and>
         (\<forall>a \<in> set (calls (trace w')). snd a = HSM_ON_EXIT \<or> snd a = HSM_ON_ENTRY)) \<and>
   contents (eventQueue (projr (setState posting_states (demo_sys 4) 2))) =
     [42, 11, 21, HSM_INITIAL] \<and>
   (\<exists>w'. setState demo_states (demo_sys 4) 2 = Inr w' \<and> currentState w' = 2 \<and>
         contents (eventQueue w') = [HSM_INITIAL])"
proof -
  have h1: "currentState (demo_sys 4) \<noteq> 2" by (simp add: demo_sys_def)
  have h2: "within_depth posting_states (currentState (demo_sys 4))" by code_simp
  have h3: "within_depth posting_states 2" by code_simp
  have h4: "within_depth demo_states (currentState (demo_sys 4))" by code_simp
  have h5: "within_depth demo_states 2" by code_simp
  have nf: "\<not> full (eventQueue (demo_sys 4))" by (simp add: demo_sys_def)
  have qi: "queue_inv (eventQueue (demo_sys 4))"
    by (simp add: demo_sys_def queue_inv_def capacity_def)
  have c0: "contents (eventQueue (demo_sys 4)) = []"
    by (simp add: demo_sys_def contents_def count_def capacity_def)
  have t0: "trace (demo_sys 4) = []" by (simp add: demo_sys_def)
  from setState_general_transition [OF h1 h2 h3] log_kept_posting
  obtain w' acts where "setState posting_states (demo_sys 4) 2 = Inr w'" "currentState w' = 2"
    "\<forall>a \<in> set acts. snd a = HSM_ON_EXIT \<or> snd a = HSM_ON_ENTRY"
    "calls (drop (length (trace (demo_sys 4))) (trace w')) = acts"
    by blast
  then have a: "\<exists>w'. setState posting_states (demo_sys 4) 2 = Inr w' \<and> currentState w' = 2 \<and>
         (\<forall>a \<in> set (calls (trace w')). snd a = HSM_ON_EXIT \<or> snd a = HSM_ON_ENTRY)"
    by (auto simp: t0)
  have b: "contents (eventQueue (projr (setState posting_states (demo_sys 4) 2))) =
     [42, 11, 21, HSM_INITIAL]"
    by code_simp
  from setState_general_transition [OF h1 h4 h5] queue_kept_demo nf qi
  obtain w'' where "setState demo_states (demo_sys 4) 2 = Inr w''" "currentState w'' = 2"
    "contents (eventQueue w'') = contents (eventQueue (demo_sys 4)) @ [HSM_INITIAL]"
    by blast
  then have c: "\<exists>w'. setState demo_states (demo_sys 4) 2 = Inr w' \<and> currentState w' = 2 \<and>
         contents (eventQueue w') = [HSM_INITIAL]"
    by (simp add: c0)
  from h1 h2 h3 h4 h5 log_kept_posting queue_kept_demo nf qi a b c show ?thesis by blast
qed

text \<open>
  The statement of C4 fails without the bound on the depth: from the bottom of a chain
  of 17 states the climb to the root runs past the 16 entries of \<^verbatim>\<open>up_path\<close>. And one
  transition can leave more than one \<open>INITIAL\<close> event in a queue that was empty: the one
  of the transition that the exit action of \<open>A1\<close> requests, and its own.
\<close>

theorem setState_general_transition_counterexample:
  "currentState (demo_sys 0) \<noteq> 16 \<and> \<not> full (eventQueue (demo_sys 0)) \<and>
   isl (setState deep_states (demo_sys 0) 16) \<and>
   currentState (demo_sys 2) \<noteq> 3 \<and>
   within_depth reentrant_states (currentState (demo_sys 2)) \<and>
   within_depth reentrant_states 3 \<and>
   \<not> full (eventQueue (demo_sys 2)) \<and> contents (eventQueue (demo_sys 2)) = [] \<and>
   \<not> isl (setState reentrant_states (demo_sys 2) 3) \<and>
   contents (eventQueue (projr (setState reentrant_states (demo_sys 2) 3))) =
     [HSM_INITIAL, HSM_INITIAL]"
  by code_simp

text \<open>
  C5. \<open>processHSM\<close> returns only with an empty queue; it returns at once when the queue
  is empty, and otherwise pops one event, passes it to the handler of the state that is
  current at that moment, and starts over on the state the handler leaves. With handlers
  that do nothing it returns after dispatching the queued events in order. In the example
  the handler of \<open>A1\<close> answers the user event by a transition to \<open>A2\<close>: the \<open>INITIAL\<close>
  event this enqueues is dispatched, to \<open>A2\<close>, before the same call returns.
\<close>

theorem processHSM_drains_queue:
  "(processHSM st ev w = Some w' \<longrightarrow> empty_q (eventQueue w')) \<and>
   (empty_q (eventQueue w) \<longrightarrow> processHSM st ev w = Some w) \<and>
   (\<not> empty_q (eventQueue w) \<longrightarrow>
      processHSM st ev w =
        processHSM st (queue (eventQueue w) (unat (tail (eventQueue w))))
          (call_handler st (currentState w) (queue (eventQueue w) (unat (tail (eventQueue w))))
             (w\<lparr>eventQueue := snd (snd (getEvent (eventQueue w) ev))\<rparr>))) \<and>
   (idle_handlers st \<and> queue_inv (eventQueue w) \<longrightarrow>
      (\<exists>w''. processHSM st ev w = Some w'' \<and>
         trace w'' = trace w @
           map (\<lambda>e. (currentState w, e, currentState w)) (contents (eventQueue w)) \<and>
         currentState w'' = currentState w \<and> empty_q (eventQueue w''))) \<and>
   (case processHSM relay_states 0 (sendEvent (demo_sys 2) HSM_USER_START) of
      Some r \<Rightarrow> trace r = [(2, HSM_USER_START, 2), (2, HSM_ON_EXIT, 2),
                            (3, HSM_ON_ENTRY, 2), (3, HSM_INITIAL, 3)] \<and>
                currentState r = 3 \<and> empty_q (eventQueue r)
    | None \<Rightarrow> False)"
proof -
  have sc: "(case processHSM relay_states 0 (sendEvent (demo_sys 2) HSM_USER_START) of
      Some r \<Rightarrow> trace r = [(2, HSM_USER_START, 2), (2, HSM_ON_EXIT, 2),
                            (3, HSM_ON_ENTRY, 2), (3, HSM_INITIAL, 3)] \<and>
                currentState r = 3 \<and> empty_q (eventQueue r)
    | None \<Rightarrow> False)"
    by code_simp
  from processHSM_returns_empty [of st ev w w'] processHSM_stop [of w st ev]
    processHSM_step [of w st ev] processHSM_idle [of st w ev] sc
  show ?thesis by blast
qed

theorem processHSM_drains_queue_witness:
  "idle_handlers demo_states \<and>
   empty_q (eventQueue (demo_sys 2)) \<and> processHSM demo_states 0 (demo_sys 2) = Some (demo_sys 2) \<and>
   queue_inv (eventQueue (sendEvent (demo_sys 2) 5)) \<and>
   \<not> empty_q (eventQueue (sendEvent (demo_sys 2) 5)) \<and>
   (\<exists>r. processHSM demo_states 0 (sendEvent (demo_sys 2) 5) = Some r \<and>
        trace r = [(2, 5, 2)] \<and> currentState r = 2 \<and> empty_q (eventQueue r))"
proof -
  have e: "empty_q (eventQueue (demo_sys 2))" by (simp add: demo_sys_def)
  have i0: "queue_inv (eventQueue (demo_sys 2))"
    by (simp add: demo_sys_def queue_inv_def capacity_def)
  have nf: "\<not> full (eventQueue (demo_sys 2))" by (simp add: demo_sys_def)
  have c0: "contents (eventQueue (demo_sys 2)) = []"
    by (simp add: demo_sys_def contents_def count_def capacity_def)
  have i1: "queue_inv (eventQueue (sendEvent (demo_sys 2) 5))"
    using queue_inv_put [OF i0, of 5] by (simp add: sendEvent_fields)
  have ne: "\<not> empty_q (eventQueue (sendEvent (demo_sys 2) 5))"
    using nf by (simp add: sendEvent_fields putEvent_fields)
  have cs: "contents (eventQueue (sendEvent (demo_sys 2) 5)) = [5]"
    using contents_put [OF i0 nf, of 5] by (simp add: sendEvent_fields c0)
  have t: "trace (sendEvent (demo_sys 2) 5) = []" "currentState (sendEvent (demo_sys 2) 5) = 2"
    by (simp_all add: sendEvent_fields demo_sys_def)
  have a: "processHSM demo_states 0 (demo_sys 2) = Some (demo_sys 2)"
    by (rule processHSM_drains_queue [of demo_states 0 "demo_sys 2",
          THEN conjunct2, THEN conjunct1, rule_format, OF e])
  note r = processHSM_drains_queue [of demo_states 0 "sendEvent (demo_sys 2) 5",
      THEN conjunct2, THEN conjunct2, THEN conjunct2, THEN conjunct1, rule_format,
      OF conjI [OF idle_demo i1]]
  have b: "\<exists>r. processHSM demo_states 0 (sendEvent (demo_sys 2) 5) = Some r \<and>
        trace r = [(2, 5, 2)] \<and> currentState r = 2 \<and> empty_q (eventQueue r)"
    using r unfolding cs t by simp
  from idle_demo e a i1 ne b show ?thesis by blast
qed



text \<open>
  C10. On a full queue \<open>sendEvent\<close> leaves the queue as it is and its result does not
  depend on the event: the caller cannot tell that the event was dropped. So the
  \<open>INITIAL\<close> event of a transition is lost when the queue is full.
\<close>

theorem sendEvent_drops_when_full:
  assumes "full (eventQueue w)"
  shows "eventQueue (sendEvent w e) = eventQueue w \<and>
         sendEvent w e = w\<lparr>irq_enabled := True\<rparr> \<and>
         sendEvent w e = sendEvent w e' \<and>
         (quiet_actions st \<and>
          (currentState w = T \<or> within_depth st (currentState w) \<and> within_depth st T) \<longrightarrow>
            (\<exists>w'. setState st w T = Inr w' \<and> currentState w' = T \<and>
                   eventQueue w' = eventQueue w))"
proof -
  have s: "sendEvent x ev = x\<lparr>irq_enabled := True\<rparr>" if "full (eventQueue x)" for x :: "'a sys" and ev
    using that by (simp add: sendEvent_def Let_def putEvent_full)
  have g: "\<exists>w'. setState st w T = Inr w' \<and> currentState w' = T \<and> eventQueue w' = eventQueue w"
    if q: "quiet_actions st"
      and c: "currentState w = T \<or> within_depth st (currentState w) \<and> within_depth st T"
  proof (cases "currentState w = T")
    case True
    show ?thesis
      unfolding setState_self_eq [OF q True]
      using True assms by (simp add: sendEvent_fields putEvent_full)
  next
    case False
    with c have d: "within_depth st (currentState w)" "within_depth st T" by simp_all
    from setState_general [OF q False d] obtain up down X where
      "setState st w T =
         Inr (sendEvent (w\<lparr>up_path := up, down_path := down, trace := X, currentState := T\<rparr>)
                HSM_INITIAL)"
      by blast
    then show ?thesis using assms by (simp add: sendEvent_fields putEvent_full)
  qed
  from s [OF assms] g show ?thesis by simp
qed

theorem sendEvent_drops_when_full_witness:
  "full (eventQueue (demo_sys 2\<lparr>eventQueue := (eventQueue (demo_sys 2))\<lparr>full := True, empty_q := False\<rparr>\<rparr>)) \<and>
   quiet_actions demo_states \<and>
   within_depth demo_states 2 \<and> within_depth demo_states 3 \<and>
   (case setState demo_states
           (demo_sys 2\<lparr>eventQueue := (eventQueue (demo_sys 2))\<lparr>full := True, empty_q := False\<rparr>\<rparr>) 3 of
      Inr w' \<Rightarrow> currentState w' = 3 \<and>
                eventQueue w' = (eventQueue (demo_sys 2))\<lparr>full := True, empty_q := False\<rparr>
    | Inl _ \<Rightarrow> False)"
proof -
  let ?w = "demo_sys 2\<lparr>eventQueue := (eventQueue (demo_sys 2))\<lparr>full := True, empty_q := False\<rparr>\<rparr>"
  have f: "full (eventQueue ?w)" by simp
  have c: "currentState ?w = 2" by (simp add: demo_sys_def)
  have h3: "within_depth demo_states 2" by code_simp
  have h4: "within_depth demo_states 3" by code_simp
  from sendEvent_drops_when_full [OF f, of _ _ demo_states 3] quiet_demo h3 h4 c
  obtain w' where "setState demo_states ?w 3 = Inr w'" "currentState w' = 3"
    "eventQueue w' = eventQueue ?w"
    by auto
  then show ?thesis using quiet_demo h3 h4 by simp
qed

end
